theory Spec2Isabelle
  imports Complex_Main "HOL-Library.Char_ord" "HOL-Library.List_Lexorder"
    "HOL-Library.Product_Lexorder" "HOL-Library.Multiset"
begin

section \<open>Values and errors\<close>

text \<open>
  The script \<^verbatim>\<open>Kohones.py\<close> reads raw records (dictionaries with the keys
  \<^verbatim>\<open>konto\<close>, \<^verbatim>\<open>paragraf\<close>, \<^verbatim>\<open>kwota\<close>), cleans them, pivots them into an
  account-by-paragraph matrix, normalises the matrix, trains a self-organising map
  and groups the accounts by winning neuron.

  Python strings are modelled as \<^typ>\<open>string\<close>, one \<^typ>\<open>char\<close> per code point
  (code points below 256). Python floats are modelled as \<^typ>\<open>real\<close>: rounding,
  infinities and NaN are outside the model. A cell of the \<^verbatim>\<open>kwota\<close> column is an
  int (unbounded), a float, a string or \<^verbatim>\<open>None\<close>.
\<close>

datatype pyval = PyInt int | PyFloat real | PyStr string | PyNone

text \<open>
  The exceptions of the script and its libraries are the first four constructors.
  The last three are the error names of the specification; no line of the script
  raises them.
\<close>

datatype error =
    KeyError string
  | ValueError
  | OverflowError
  | IndexError
  | EmptyInputError
  | DimensionMismatchError
  | DegenerateMapError

section \<open>Part 1: cleaning amounts and paragraphs\<close>

definition is_digit :: "char \<Rightarrow> bool" where
  "is_digit c = (c \<in> set ''0123456789'')"

text \<open>\<^verbatim>\<open>str.isspace\<close> for code points below 256.\<close>

definition is_space :: "char \<Rightarrow> bool" where
  "is_space c = ((of_char c :: nat) \<in> {9, 10, 11, 12, 13, 28, 29, 30, 31, 32, 133, 160})"

text \<open>\<^verbatim>\<open>s.strip()\<close>\<close>

definition strip :: "string \<Rightarrow> string" where
  "strip s = rev (dropWhile is_space (rev (dropWhile is_space s)))"

text \<open>\<^verbatim>\<open>s.split(sep)\<close> for a separator of one character.\<close>

fun split_char :: "char \<Rightarrow> string \<Rightarrow> string list" where
  "split_char sep [] = [[]]"
| "split_char sep (c # cs) =
     (if c = sep then [] # split_char sep cs
      else (case split_char sep cs of
              [] \<Rightarrow> [[c]]
            | p # ps \<Rightarrow> (c # p) # ps))"

text \<open>\<^verbatim>\<open>re.sub(r'[^\d,-]', '', value)\<close>: every character that is not a digit, a comma
  or a minus sign is removed.\<close>

definition re_sub_non_numeric :: "string \<Rightarrow> string" where
  "re_sub_non_numeric s = filter (\<lambda>c. is_digit c \<or> c = CHR '','' \<or> c = CHR ''-'') s"

text \<open>\<^verbatim>\<open>value.replace(',', '.')\<close>\<close>

definition replace_comma :: "string \<Rightarrow> string" where
  "replace_comma s = map (\<lambda>c. if c = CHR '','' then CHR ''.'' else c) s"

definition digit_val :: "char \<Rightarrow> nat" where
  "digit_val c = of_char c - 48"

definition digits_val :: "string \<Rightarrow> nat" where
  "digits_val ds = foldl (\<lambda>a c. 10 * a + digit_val c) 0 ds"

text \<open>
  \<^verbatim>\<open>float(s)\<close> on a string of digits, dots and minus signs, the only strings line 23
  passes to it: an optional minus sign, then digits with an optional dot, at least one
  digit in all. \<open>None\<close> stands for the \<^verbatim>\<open>ValueError\<close>.
\<close>

definition float_of_body :: "string \<Rightarrow> real option" where
  "float_of_body b =
     (let ip = takeWhile is_digit b; rest = dropWhile is_digit b in
      case rest of
        [] \<Rightarrow> if ip = [] then None else Some (real (digits_val ip))
      | c # fp \<Rightarrow>
          if c = CHR ''.'' \<and> list_all is_digit fp \<and> (ip \<noteq> [] \<or> fp \<noteq> [])
          then Some (real (digits_val ip) + real (digits_val fp) / 10 ^ length fp)
          else None)"

definition float_of_str :: "string \<Rightarrow> real option" where
  "float_of_str s =
     (case s of
        [] \<Rightarrow> None
      | c # b \<Rightarrow> if c = CHR ''-'' then map_option uminus (float_of_body b)
                 else float_of_body s)"

text \<open>
  \<^verbatim>\<open>float(n)\<close> on an int raises \<^verbatim>\<open>OverflowError\<close> when \<open>n\<close> rounds to a magnitude
  of \<open>2 ^ 1024\<close> or more, that is from \<open>2 ^ 1024 - 2 ^ 970\<close> on.
\<close>

definition float_of_int :: "int \<Rightarrow> error + real" where
  "float_of_int n =
     (if \<bar>n\<bar> \<ge> 2 ^ 1024 - 2 ^ 970 then Inl OverflowError else Inr (real_of_int n))"

text \<open>Lines 16 to 25, on the string that \<^verbatim>\<open>str(value)\<close> returns: the \<^verbatim>\<open>ValueError\<close> of
  \<^verbatim>\<open>float\<close> is caught and gives 0.\<close>

definition clean_currency_str :: "string \<Rightarrow> real" where
  "clean_currency_str s0 =
     (let s = strip s0;
          s = re_sub_non_numeric s;
          s = replace_comma s
      in case float_of_str s of
           Some r \<Rightarrow> r
         | None \<Rightarrow> 0)"

text \<open>Lines 11 to 25. An int or a float returns at line 14; \<^verbatim>\<open>str\<close> is the identity on
  a string and gives \<^verbatim>\<open>'None'\<close> on \<^verbatim>\<open>None\<close>.\<close>

definition clean_currency :: "pyval \<Rightarrow> error + real" where
  "clean_currency v =
     (case v of
        PyInt n \<Rightarrow> float_of_int n
      | PyFloat r \<Rightarrow> Inr r
      | PyStr s \<Rightarrow> Inr (clean_currency_str s)
      | PyNone \<Rightarrow> Inr (clean_currency_str ''None''))"

text \<open>Lines 27 to 29, on a category cell that is a string (\<^verbatim>\<open>str\<close> is the identity
  there). The index \<^verbatim>\<open>[0]\<close> raises \<^verbatim>\<open>IndexError\<close> on an empty list.\<close>

definition clean_paragraph :: "string \<Rightarrow> error + string" where
  "clean_paragraph s =
     (case split_char CHR ''.'' s of
        [] \<Rightarrow> Inl IndexError
      | p # _ \<Rightarrow> Inr (strip p))"

section \<open>Parts 3 and 4: aggregation and the pivot table\<close>

text \<open>One row of \<^verbatim>\<open>raw_data\<close> (with \<^typ>\<open>pyval\<close> amounts) or of the cleaned data
  frame (with \<^typ>\<open>real\<close> amounts).\<close>

record 'a transaction =
  konto :: string
  paragraf :: string
  kwota :: 'a

text \<open>\<^verbatim>\<open>Series.apply(f)\<close>: the first exception of \<open>f\<close> ends the call.\<close>

fun apply_series :: "('a \<Rightarrow> error + 'b) \<Rightarrow> 'a list \<Rightarrow> error + 'b list" where
  "apply_series f [] = Inr []"
| "apply_series f (x # xs) =
     (case f x of
        Inl e \<Rightarrow> Inl e
      | Inr y \<Rightarrow> (case apply_series f xs of
                    Inl e \<Rightarrow> Inl e
                  | Inr ys \<Rightarrow> Inr (y # ys)))"

text \<open>
  Lines 122 to 126. \<^verbatim>\<open>pd.DataFrame([])\<close> has no columns, so \<^verbatim>\<open>df['kwota']\<close> raises
  \<^verbatim>\<open>KeyError\<close> on an empty record list.
\<close>

definition clean_df :: "pyval transaction list \<Rightarrow> error + real transaction list" where
  "clean_df raw_data =
     (if raw_data = [] then Inl (KeyError ''kwota'')
      else case apply_series clean_currency (map kwota raw_data) of
             Inl e \<Rightarrow> Inl e
           | Inr ks \<Rightarrow>
               (case apply_series clean_paragraph (map paragraf raw_data) of
                  Inl e \<Rightarrow> Inl e
                | Inr ps \<Rightarrow>
                    Inr (map (\<lambda>(r, k, p). \<lparr>konto = konto r, paragraf = p, kwota = k\<rparr>)
                           (zip raw_data (zip ks ps)))))"

text \<open>
  \<^verbatim>\<open>pivot_table(index='konto', columns='paragraf', values='kwota', aggfunc='sum',
  fill_value=0)\<close> groups the rows by the pair of keys (sorted), sums each group,
  unstacks the second key into columns (a pair without a group is a missing cell) and
  fills the missing cells with \<^verbatim>\<open>fill_value\<close>.
\<close>

definition groupby_sum :: "real transaction list \<Rightarrow> ((string \<times> string) \<times> real) list" where
  "groupby_sum df =
     map (\<lambda>key. (key, sum_list (map kwota (filter (\<lambda>r. (konto r, paragraf r) = key) df))))
       (sort (remdups (map (\<lambda>r. (konto r, paragraf r)) df)))"

record pivot =
  index :: "string list"
  columns :: "string list"
  data_values :: "real list list"

definition unstack :: "((string \<times> string) \<times> real) list \<Rightarrow> string list \<times> string list \<times> real option list list" where
  "unstack agg =
     (let idx = sort (remdups (map (fst \<circ> fst) agg));
          cols = sort (remdups (map (snd \<circ> fst) agg))
      in (idx, cols, map (\<lambda>e. map (\<lambda>c. map_of agg (e, c)) cols) idx))"

definition fillna :: "real \<Rightarrow> real option list list \<Rightarrow> real list list" where
  "fillna fill_value cells = map (map (\<lambda>v. case v of None \<Rightarrow> fill_value | Some x \<Rightarrow> x)) cells"

definition pivot_table :: "real transaction list \<Rightarrow> pivot" where
  "pivot_table df =
     (case unstack (groupby_sum df) of
        (idx, cols, cells) \<Rightarrow>
          \<lparr>index = idx, columns = cols, data_values = fillna 0 cells\<rparr>)"

text \<open>Lines 122 to 130: from the raw records to \<^verbatim>\<open>pivot_df\<close>.\<close>

definition pivot_df :: "pyval transaction list \<Rightarrow> error + pivot" where
  "pivot_df raw_data =
     (case clean_df raw_data of
        Inl e \<Rightarrow> Inl e
      | Inr df \<Rightarrow> Inr (pivot_table df))"

text \<open>\<^verbatim>\<open>pivot_df.loc[e, c]\<close>: the cell of a row label and a column label.\<close>

definition loc_cell :: "pivot \<Rightarrow> string \<Rightarrow> string \<Rightarrow> error + real" where
  "loc_cell p e c =
     (case map_of (zip (index p) (data_values p)) e of
        None \<Rightarrow> Inl (KeyError e)
      | Some row \<Rightarrow>
          (case map_of (zip (columns p) row) c of
             None \<Rightarrow> Inl (KeyError c)
           | Some v \<Rightarrow> Inr v))"

section \<open>Part 5: normalisation and the size of the map\<close>

text \<open>\<^verbatim>\<open>a.min(axis=0)\<close> and \<^verbatim>\<open>a.max(axis=0)\<close>: the reduction has no identity, so an
  array without rows raises \<^verbatim>\<open>ValueError\<close>.\<close>

definition amin0 :: "real list list \<Rightarrow> error + real list" where
  "amin0 a = (case a of [] \<Rightarrow> Inl ValueError | r # rs \<Rightarrow> Inr (foldl (map2 min) r rs))"

definition amax0 :: "real list list \<Rightarrow> error + real list" where
  "amax0 a = (case a of [] \<Rightarrow> Inl ValueError | r # rs \<Rightarrow> Inr (foldl (map2 max) r rs))"

definition epsilon :: real where
  "epsilon = 1 / 10 ^ 10"

text \<open>Line 140; the row vectors of minima and maxima are broadcast over the rows.\<close>

definition data_normalized :: "real list list \<Rightarrow> error + real list list" where
  "data_normalized a =
     (case amin0 a of
        Inl e \<Rightarrow> Inl e
      | Inr mn \<Rightarrow>
          (case amax0 a of
             Inl e \<Rightarrow> Inl e
           | Inr mx \<Rightarrow>
               Inr (map (\<lambda>row. map2 (/) (map2 (-) row mn)
                                  (map (\<lambda>d. d + epsilon) (map2 (-) mx mn))) a)))"

text \<open>\<^verbatim>\<open>int(x)\<close> on a float truncates towards zero.\<close>

definition py_int :: "real \<Rightarrow> int" where
  "py_int x = (if 0 \<le> x then \<lfloor>x\<rfloor> else \<lceil>x\<rceil>)"

text \<open>Line 143, with \<open>n\<close> the value of \<^verbatim>\<open>len(pivot_df)\<close>.\<close>

definition map_size :: "nat \<Rightarrow> int" where
  "map_size n = py_int (sqrt (5 * sqrt (real n))) + 2"

text \<open>
  Line 144: the arguments of the \<^verbatim>\<open>MiniSom\<close> constructor. The call gives no
  \<^verbatim>\<open>random_seed\<close>, so the parameter keeps its default \<^verbatim>\<open>None\<close> and the generator of
  the map is seeded from the environment.
\<close>

record minisom_args =
  som_x :: int
  som_y :: int
  input_len :: nat
  sigma :: real
  learning_rate :: real
  random_seed :: "nat option"

definition som_args :: "pivot \<Rightarrow> minisom_args" where
  "som_args p =
     \<lparr>som_x = map_size (length (index p)),
      som_y = map_size (length (index p)),
      input_len = length (columns p),
      sigma = 1,
      learning_rate = 1 / 2,
      random_seed = None\<rparr>"

section \<open>The winning neuron\<close>

text \<open>
  Modelled from the spec: the method \<^verbatim>\<open>winner\<close> of the \<^verbatim>\<open>MiniSom\<close> class, imported at
  line 3 and not among the source files. The specification (section 4.3) describes it
  as the neuron whose weight vector has the least Euclidean distance to the input. The
  model computes the map of distances, takes the first position of its minimum in
  row-major order and turns the position into a (row, column) pair. A grid without
  neurons and a weight vector of another length than the input are the two failures
  the specification names.
\<close>

definition euclidean :: "real list \<Rightarrow> real list \<Rightarrow> real" where
  "euclidean x w = sqrt (sum_list (map2 (\<lambda>a b. (a - b)\<^sup>2) x w))"

fun argmin :: "real list \<Rightarrow> nat" where
  "argmin [] = 0"
| "argmin (v # vs) = (if \<forall>u \<in> set vs. v \<le> u then 0 else Suc (argmin vs))"

definition unravel_index :: "nat \<Rightarrow> nat \<Rightarrow> nat \<times> nat" where
  "unravel_index k ncols = (k div ncols, k mod ncols)"

definition winner :: "real list list list \<Rightarrow> real list \<Rightarrow> error + nat \<times> nat" where
  "winner weights x =
     (case weights of
        [] \<Rightarrow> Inl DegenerateMapError
      | r # _ \<Rightarrow>
          if r = [] then Inl DegenerateMapError
          else if \<exists>w \<in> set (concat weights). length w \<noteq> length x
          then Inl DimensionMismatchError
          else Inr (unravel_index (argmin (concat (map (map (euclidean x)) weights)))
                      (length r)))"

section \<open>Part 6: groups of accounts and their dominant paragraph\<close>

text \<open>
  \<^verbatim>\<open>grouped_accounts\<close> is a dictionary from coordinates to lists of account names. A
  Python dictionary keeps the order of insertion, so it is a list of pairs with
  distinct keys.
\<close>

type_synonym groups = "((nat \<times> nat) \<times> string list) list"

text \<open>Lines 154 to 156: the body of the loop after the winner is known.\<close>

definition add_account :: "nat \<times> nat \<Rightarrow> string \<Rightarrow> groups \<Rightarrow> groups" where
  "add_account w account_name g =
     (let g1 = (if map_of g w = None then g @ [(w, [])] else g)
      in map (\<lambda>(k, accounts). if k = w then (k, accounts @ [account_name]) else (k, accounts)) g1)"

text \<open>Lines 152 to 156: the loop over \<^verbatim>\<open>zip(pivot_df.index, data_normalized)\<close>.\<close>

fun group_loop :: "real list list list \<Rightarrow> (string \<times> real list) list \<Rightarrow> groups \<Rightarrow> error + groups" where
  "group_loop som [] g = Inr g"
| "group_loop som ((account_name, row_data) # rest) g =
     (case winner som row_data of
        Inl e \<Rightarrow> Inl e
      | Inr w \<Rightarrow> group_loop som rest (add_account w account_name g))"

definition grouped_accounts :: "real list list list \<Rightarrow> string list \<Rightarrow> real list list \<Rightarrow> error + groups" where
  "grouped_accounts som idx normalized = group_loop som (zip idx normalized) []"

text \<open>\<^verbatim>\<open>pivot_df.loc[accounts]\<close>: the rows of the listed labels, \<^verbatim>\<open>KeyError\<close> for a label
  that is not in the index.\<close>

definition loc_rows :: "pivot \<Rightarrow> string list \<Rightarrow> error + real list list" where
  "loc_rows p accounts =
     apply_series (\<lambda>a. case map_of (zip (index p) (data_values p)) a of
                          None \<Rightarrow> Inl (KeyError a)
                        | Some row \<Rightarrow> Inr row) accounts"

text \<open>\<^verbatim>\<open>group_vectors.mean()\<close>: the mean of every column, for a frame with a row at
  least.\<close>

definition column_means :: "real list list \<Rightarrow> real list" where
  "column_means rows =
     (case rows of
        [] \<Rightarrow> []
      | r # rs \<Rightarrow> map (\<lambda>s. s / real (length rows)) (foldl (map2 (+)) r rs))"

text \<open>\<^verbatim>\<open>idxmax\<close> returns the label of the first maximum.\<close>

fun argmax :: "real list \<Rightarrow> nat" where
  "argmax [] = 0"
| "argmax (v # vs) = (if \<forall>u \<in> set vs. u \<le> v then 0 else Suc (argmax vs))"

text \<open>
  Lines 164 and 165. The groups of the loop above have a member at least and the
  pivot table a column at least; \<^verbatim>\<open>idxmax\<close> has no answer otherwise
  (\<^verbatim>\<open>ValueError\<close>).
\<close>

definition top_para :: "pivot \<Rightarrow> string list \<Rightarrow> error + string" where
  "top_para p accounts =
     (case loc_rows p accounts of
        Inl e \<Rightarrow> Inl e
      | Inr group_vectors \<Rightarrow>
          if group_vectors = [] \<or> columns p = [] then Inl ValueError
          else Inr (columns p ! argmax (column_means group_vectors)))"

text \<open>Lines 159 to 166: one entry for every item of the dictionary.\<close>

definition report :: "pivot \<Rightarrow> groups \<Rightarrow> error + ((nat \<times> nat) \<times> string list \<times> string) list" where
  "report p g =
     apply_series (\<lambda>(coords, accounts).
                     case top_para p accounts of
                       Inl e \<Rightarrow> Inl e
                     | Inr t \<Rightarrow> Inr (coords, accounts, t)) g"

text \<open>
  The words of the specification (section 4.4) for the dominant category: the mean of a
  category's raw values across the member accounts of a group. The raw value is the
  cell of the pivot table; a label outside the table counts 0.
\<close>

definition raw_value :: "pivot \<Rightarrow> string \<Rightarrow> string \<Rightarrow> real" where
  "raw_value p e c = (case loc_cell p e c of Inl _ \<Rightarrow> 0 | Inr v \<Rightarrow> v)"

definition group_mean :: "pivot \<Rightarrow> string list \<Rightarrow> string \<Rightarrow> real" where
  "group_mean p accounts c =
     sum_list (map (\<lambda>e. raw_value p e c) accounts) / real (length accounts)"

section \<open>The script up to the construction of the map\<close>

text \<open>
  Lines 122 to 144 in sequence: the pivot table, the normalised data and the arguments
  of the map. An exception of a step ends the script, so no later step runs.
\<close>

definition prepare_som :: "pyval transaction list \<Rightarrow> error + pivot \<times> real list list \<times> minisom_args" where
  "prepare_som raw_data =
     (case pivot_df raw_data of
        Inl e \<Rightarrow> Inl e
      | Inr p \<Rightarrow>
          (case data_normalized (data_values p) of
             Inl e \<Rightarrow> Inl e
           | Inr normalized \<Rightarrow> Inr (p, normalized, som_args p)))"

text \<open>Lines 100 to 107: the sample records of the script.\<close>

definition raw_data :: "pyval transaction list" where
  "raw_data =
     [\<lparr>konto = ''Konto_A'', paragraf = ''4210'', kwota = PyInt 5000\<rparr>,
      \<lparr>konto = ''Konto_A'', paragraf = ''4300'', kwota = PyInt 100\<rparr>,
      \<lparr>konto = ''Konto_B'', paragraf = ''4300'', kwota = PyInt 4000\<rparr>,
      \<lparr>konto = ''Konto_B'', paragraf = ''4210'', kwota = PyInt 100\<rparr>,
      \<lparr>konto = ''Konto_C'', paragraf = ''4210'', kwota = PyInt 4800\<rparr>,
      \<lparr>konto = ''Konto_D'', paragraf = ''4300'', kwota = PyInt 4200\<rparr>]"

text \<open>A small input for the examples below: three accounts, one paragraph, and a map
  of one row and two neurons.\<close>

abbreviation three_accounts :: "pyval transaction list" where
  "three_accounts \<equiv>
     [\<lparr>konto = ''A'', paragraf = ''4210'', kwota = PyInt 10\<rparr>,
      \<lparr>konto = ''B'', paragraf = ''4210'', kwota = PyInt 0\<rparr>,
      \<lparr>konto = ''C'', paragraf = ''4210'', kwota = PyStr ''10,0''\<rparr>]"

abbreviation three_accounts_df :: "real transaction list" where
  "three_accounts_df \<equiv>
     [\<lparr>konto = ''A'', paragraf = ''4210'', kwota = 10\<rparr>,
      \<lparr>konto = ''B'', paragraf = ''4210'', kwota = 0\<rparr>,
      \<lparr>konto = ''C'', paragraf = ''4210'', kwota = 10\<rparr>]"

abbreviation two_neurons :: "real list list list" where
  "two_neurons \<equiv> [[[0], [1]]]"

section \<open>Evaluation of the sample data\<close>

lemmas pivot_eval_defs =
  pivot_df_def clean_df_def clean_currency_def clean_currency_str_def float_of_int_def
  clean_paragraph_def
  strip_def is_space_def pivot_table_def unstack_def groupby_sum_def fillna_def Let_def

lemma pivot_df_raw_data:
  "pivot_df raw_data =
     Inr \<lparr>index = [''Konto_A'', ''Konto_B'', ''Konto_C'', ''Konto_D''],
          columns = [''4210'', ''4300''],
          data_values = [[5000, 100], [100, 4000], [4800, 0], [0, 4200]]\<rparr>"
  by (simp add: raw_data_def pivot_eval_defs)

section \<open>Cleaning of amounts\<close>

lemma float_of_int_in_range:
  "\<bar>n\<bar> < 2 ^ 1024 - 2 ^ 970 \<Longrightarrow> float_of_int n = Inr (real_of_int n)"
  by (simp add: float_of_int_def)

text \<open>The string that reaches \<^verbatim>\<open>float\<close> holds digits, dots and minus signs only, the
  alphabet \<^const>\<open>float_of_str\<close> is written for.\<close>

lemma numeric_alphabet:
  "set (replace_comma (re_sub_non_numeric s)) \<subseteq> set ''0123456789.-''"
  by (auto simp: replace_comma_def re_sub_non_numeric_def is_digit_def)

lemma clean_currency_none: "clean_currency_str ''None'' = 0"
  by (simp add: clean_currency_str_def strip_def is_space_def re_sub_non_numeric_def
      replace_comma_def float_of_str_def is_digit_def)

text \<open>
  C10, as stated, fails: \<^verbatim>\<open>clean_currency\<close> is not total. A Python int beyond the range
  of a float takes the first branch, where \<^verbatim>\<open>float(value)\<close> raises \<^verbatim>\<open>OverflowError\<close>
  outside any \<^verbatim>\<open>try\<close>.
\<close>

theorem clean_currency_overflow_counterexample:
  "clean_currency (PyInt (10 ^ 400)) = Inl OverflowError"
  by (simp add: clean_currency_def float_of_int_def)

text \<open>
  C10, amended: for every float, string and \<^verbatim>\<open>None\<close>, and for every int within the
  range of a float, \<^verbatim>\<open>clean_currency\<close> returns a float and raises nothing. An int is
  converted directly, a float is returned as it is, and any other value is stripped to
  digits, commas and minus signs, its commas replaced by dots, and parsed; a string
  that does not parse gives 0.
\<close>

theorem clean_currency_returns_float:
  assumes "\<forall>n. v = PyInt n \<longrightarrow> \<bar>n\<bar> < 2 ^ 1024 - 2 ^ 970"
  shows "\<exists>r. clean_currency v = Inr r \<and>
           (case v of
              PyInt n \<Rightarrow> r = real_of_int n
            | PyFloat f \<Rightarrow> r = f
            | PyStr s \<Rightarrow>
                r = (case float_of_str (replace_comma (re_sub_non_numeric (strip s))) of
                       Some q \<Rightarrow> q
                     | None \<Rightarrow> 0)
            | PyNone \<Rightarrow> r = 0)"
proof (cases v)
  case (PyInt n)
  with assms have "\<bar>n\<bar> < 2 ^ 1024 - 2 ^ 970" by simp
  then show ?thesis
    using PyInt by (simp add: clean_currency_def float_of_int_in_range)
next
  case (PyFloat f)
  then show ?thesis by (simp add: clean_currency_def)
next
  case (PyStr s)
  then show ?thesis by (simp add: clean_currency_def clean_currency_str_def)
next
  case PyNone
  then show ?thesis by (simp add: clean_currency_def clean_currency_none)
qed

theorem clean_currency_returns_float_witness:
  "\<bar>5000 :: int\<bar> < 2 ^ 1024 - 2 ^ 970 \<and> clean_currency (PyInt 5000) = Inr 5000"
  using clean_currency_returns_float [of "PyInt 5000"] by simp

text \<open>Two amounts written as strings: a Polish amount and a malformed one.\<close>

lemma clean_currency_examples:
  "clean_currency (PyStr ''1 200,50'') = Inr (12005 / 10)"
  "clean_currency (PyStr ''brak'') = Inr 0"
  by (simp_all add: clean_currency_def clean_currency_str_def strip_def is_space_def
      re_sub_non_numeric_def replace_comma_def float_of_str_def float_of_body_def
      is_digit_def digits_val_def digit_val_def)

section \<open>Cleaning of paragraphs\<close>

lemma split_char_hd:
  "\<exists>ps. split_char sep s = takeWhile (\<lambda>c. c \<noteq> sep) s # ps"
  by (induction s) auto

lemma clean_paragraph_eq:
  "clean_paragraph s = Inr (strip (takeWhile (\<lambda>c. c \<noteq> CHR ''.'') s))"
proof -
  obtain ps where "split_char CHR ''.'' s = takeWhile (\<lambda>c. c \<noteq> CHR ''.'') s # ps"
    using split_char_hd by blast
  then show ?thesis by (simp add: clean_paragraph_def)
qed

lemma digit_not_space: "is_digit c \<Longrightarrow> \<not> is_space c"
  by (auto simp: is_digit_def is_space_def)

lemma digit_not_dot: "is_digit c \<Longrightarrow> c \<noteq> CHR ''.''"
  by (auto simp: is_digit_def)

lemma space_not_dot: "is_space c \<Longrightarrow> c \<noteq> CHR ''.''"
  by (auto simp: is_space_def)

lemma dropWhile_all: "list_all P xs \<Longrightarrow> dropWhile P (xs @ ys) = dropWhile P ys"
  by (induction xs) auto

lemma strip_code:
  assumes "list_all is_space ws1" "list_all is_space ws2" "list_all is_digit ds"
  shows "strip (ws1 @ ds @ ws2) = ds"
proof (cases ds)
  case Nil
  have "\<forall>c \<in> set (ws1 @ ws2). is_space c"
    using assms by (auto simp: list_all_iff)
  then have e: "dropWhile is_space (ws1 @ ws2) = []"
    by (simp only: dropWhile_eq_Nil_conv)
  have "strip (ws1 @ ws2) = []"
    unfolding strip_def e by simp
  then show ?thesis using Nil by simp
next
  case (Cons d ds')
  have d: "\<not> is_space d"
    using assms(3) Cons digit_not_space by (auto simp: list_all_iff)
  have 1: "dropWhile is_space (ws1 @ ds @ ws2) = ds @ ws2"
    using assms(1) Cons d by (simp add: dropWhile_all)
  have "rev (ds @ ws2) = rev ws2 @ rev ds" by simp
  moreover have "list_all is_space (rev ws2)" using assms(2) by (simp add: list_all_iff)
  ultimately have "dropWhile is_space (rev (ds @ ws2)) = dropWhile is_space (rev ds)"
    by (simp add: dropWhile_all del: rev_append)
  also have "\<dots> = rev ds"
  proof (cases "rev ds")
    case Nil
    then show ?thesis by simp
  next
    case (Cons a as)
    then have "a \<in> set ds" by (metis list.set_intros(1) set_rev)
    then have "\<not> is_space a"
      using assms(3) digit_not_space by (auto simp: list_all_iff)
    then show ?thesis using Cons by simp
  qed
  finally show ?thesis using 1 by (simp add: strip_def)
qed

text \<open>
  C9, as stated, fails: a label that reduces to the empty string raises nothing. The
  record is aggregated under the empty label.
\<close>

theorem empty_label_counterexample:
  "pivot_df [\<lparr>konto = ''Konto_A'', paragraf = '' '', kwota = PyInt 100\<rparr>] =
     Inr \<lparr>index = [''Konto_A''], columns = [''''], data_values = [[100]]\<rparr>"
  by (simp add: pivot_eval_defs)

text \<open>
  C9, amended: a category string made of a code of digits, with whitespace around it
  or not, alone or followed by a dot and anything, is cleaned to the code of digits;
  and \<^verbatim>\<open>clean_paragraph\<close> signals no error on any string (an empty result included).
\<close>

theorem clean_paragraph_code:
  assumes "list_all is_space ws1" and "list_all is_space ws2" and "list_all is_digit ds"
    and "rest = [] \<or> hd rest = CHR ''.''"
  shows "clean_paragraph (ws1 @ ds @ ws2 @ rest) = Inr ds
         \<and> (\<forall>s. \<exists>p. clean_paragraph s = Inr p)"
proof -
  have nd: "\<forall>c \<in> set (ws1 @ ds @ ws2). c \<noteq> CHR ''.''"
    using assms(1-3) digit_not_dot space_not_dot unfolding list_all_iff by fastforce
  have "takeWhile (\<lambda>c. c \<noteq> CHR ''.'') ((ws1 @ ds @ ws2) @ rest) = ws1 @ ds @ ws2"
  proof (cases rest)
    case Nil
    then show ?thesis using nd by (simp add: takeWhile_eq_all_conv)
  next
    case (Cons r rs)
    with assms(4) have "r = CHR ''.''" by simp
    then show ?thesis using nd Cons
      by (simp only: takeWhile_append2[OF nd[rule_format]]) simp
  qed
  then show ?thesis
    using strip_code[OF assms(1-3)] by (simp add: clean_paragraph_eq)
qed

theorem clean_paragraph_code_witness:
  "list_all is_space '' '' \<and> list_all is_space '' '' \<and> list_all is_digit ''4210'' \<and>
   hd ''.0'' = CHR ''.'' \<and> clean_paragraph '' 4210 .0'' = Inr ''4210''"
  using clean_paragraph_code [of "'' ''" "'' ''" "''4210''" "''.0''"]
  by (simp add: is_space_def is_digit_def)

section \<open>The pivot table: labels\<close>

lemma set_index_pivot_table: "set (index (pivot_table df)) = konto ` set df"
  by (auto simp: pivot_table_def unstack_def groupby_sum_def Let_def image_iff)

lemma set_columns_pivot_table: "set (columns (pivot_table df)) = paragraf ` set df"
  by (auto simp: pivot_table_def unstack_def groupby_sum_def Let_def image_iff)

lemma distinct_index_pivot_table: "distinct (index (pivot_table df))"
  by (simp add: pivot_table_def unstack_def Let_def)

lemma distinct_columns_pivot_table: "distinct (columns (pivot_table df))"
  by (simp add: pivot_table_def unstack_def Let_def)

lemma sorted_columns_pivot_table: "sorted (columns (pivot_table df))"
  by (simp add: pivot_table_def unstack_def Let_def)

lemma length_index_pivot_table: "length (index (pivot_table df)) = card (konto ` set df)"
  using distinct_card[OF distinct_index_pivot_table, of df]
  by (simp add: set_index_pivot_table)

section \<open>The size of the map\<close>

lemma py_int_nonneg: "0 \<le> x \<Longrightarrow> py_int x = \<lfloor>x\<rfloor>"
  by (simp add: py_int_def)

text \<open>
  C4: the size of the grid is \<open>\<lfloor>sqrt (5 * sqrt N)\<rfloor> + 2\<close>, for any \<open>N\<close> and for the
  \<open>N\<close> of the script, the number of rows of the pivot table, which is the number of
  distinct accounts. \<^const>\<open>map_size\<close> has no argument but \<open>N\<close>, so equal \<open>N\<close> give
  equal sizes.
\<close>

theorem map_size_formula:
  "map_size n = \<lfloor>sqrt (5 * sqrt (real n))\<rfloor> + 2 \<and>
   map_size (length (index (pivot_table df))) =
     \<lfloor>sqrt (5 * sqrt (real (card (konto ` set df))))\<rfloor> + 2"
  by (simp add: map_size_def py_int_nonneg length_index_pivot_table)

lemma le_sqrt_iff: "0 \<le> a \<Longrightarrow> 0 \<le> y \<Longrightarrow> a \<le> sqrt y \<longleftrightarrow> a\<^sup>2 \<le> y"
  by (metis real_sqrt_le_iff real_sqrt_abs abs_of_nonneg)

lemma sqrt_less_iff: "0 \<le> a \<Longrightarrow> 0 \<le> y \<Longrightarrow> sqrt y < a \<longleftrightarrow> y < a\<^sup>2"
  by (metis real_sqrt_less_iff real_sqrt_abs abs_of_nonneg)

text \<open>The size without square roots: \<open>k + 2\<close> for the \<open>k\<close> with
  \<open>k ^ 4 \<le> 25 * N < (k + 1) ^ 4\<close>.\<close>

lemma map_size_char:
  assumes "0 \<le> k"
  shows "map_size n = k + 2 \<longleftrightarrow> k ^ 4 \<le> 25 * int n \<and> 25 * int n < (k + 1) ^ 4"
proof -
  let ?x = "sqrt (5 * sqrt (real n))"
  have k: "0 \<le> real_of_int k" "0 \<le> real_of_int k + 1" using assms by simp_all
  have "map_size n = k + 2 \<longleftrightarrow> \<lfloor>?x\<rfloor> = k"
    by (simp add: map_size_def py_int_nonneg)
  also have "\<dots> \<longleftrightarrow> real_of_int k \<le> ?x \<and> ?x < real_of_int k + 1"
    by (simp add: floor_eq_iff)
  also have "real_of_int k \<le> ?x \<longleftrightarrow> (real_of_int k)\<^sup>2 \<le> 5 * sqrt (real n)"
    using k by (simp add: le_sqrt_iff)
  also have "(real_of_int k)\<^sup>2 \<le> 5 * sqrt (real n) \<longleftrightarrow> (real_of_int k)\<^sup>2 / 5 \<le> sqrt (real n)"
    by (simp add: field_simps)
  also have "\<dots> \<longleftrightarrow> ((real_of_int k)\<^sup>2 / 5)\<^sup>2 \<le> real n"
    by (rule le_sqrt_iff) simp_all
  also have "\<dots> \<longleftrightarrow> (real_of_int k) ^ 4 \<le> 25 * real n"
    by (simp add: power_divide field_simps)
  also have "\<dots> \<longleftrightarrow> k ^ 4 \<le> 25 * int n"
    by (metis (mono_tags) of_int_le_iff of_int_power of_int_mult of_int_numeral of_int_of_nat_eq)
  also have "?x < real_of_int k + 1 \<longleftrightarrow> 5 * sqrt (real n) < (real_of_int k + 1)\<^sup>2"
    using k by (simp add: sqrt_less_iff)
  also have "\<dots> \<longleftrightarrow> sqrt (real n) < (real_of_int k + 1)\<^sup>2 / 5"
    by (simp add: field_simps)
  also have "\<dots> \<longleftrightarrow> real n < ((real_of_int k + 1)\<^sup>2 / 5)\<^sup>2"
    by (rule sqrt_less_iff) simp_all
  also have "\<dots> \<longleftrightarrow> 25 * real n < (real_of_int k + 1) ^ 4"
    by (simp add: power_divide field_simps)
  also have "\<dots> \<longleftrightarrow> 25 * int n < (k + 1) ^ 4"
    by (metis (mono_tags) of_int_less_iff of_int_power of_int_mult of_int_numeral of_int_of_nat_eq of_int_add of_int_1)
  finally show ?thesis .
qed

text \<open>The four accounts of the sample data give a map of 5 by 5 neurons.\<close>

lemma map_size_four_accounts: "map_size 4 = 5"
  using map_size_char [of 3 4] by simp

section \<open>The pivot table: cells\<close>

lemma map_of_groupby_sum:
  "map_of (groupby_sum df) (e, c) =
     (if (e, c) \<in> (\<lambda>r. (konto r, paragraf r)) ` set df
      then Some (sum_list (map kwota (filter (\<lambda>r. konto r = e \<and> paragraf r = c) df)))
      else None)"
  by (simp add: groupby_sum_def map_of_map_restrict restrict_map_def)

lemma data_values_pivot_table:
  "data_values (pivot_table df) =
     map (\<lambda>e. map (\<lambda>c. case map_of (groupby_sum df) (e, c) of None \<Rightarrow> 0 | Some x \<Rightarrow> x)
                 (columns (pivot_table df)))
       (index (pivot_table df))"
  by (simp add: pivot_table_def unstack_def fillna_def Let_def)

lemma loc_cell_pivot_table:
  assumes "e \<in> konto ` set df" and "c \<in> paragraf ` set df"
  shows "loc_cell (pivot_table df) e c =
           Inr (sum_list (map kwota (filter (\<lambda>r. konto r = e \<and> paragraf r = c) df)))"
proof -
  let ?p = "pivot_table df"
  let ?cell = "\<lambda>e c. case map_of (groupby_sum df) (e, c) of None \<Rightarrow> 0 | Some x \<Rightarrow> x"
  have e: "e \<in> set (index ?p)" and c: "c \<in> set (columns ?p)"
    using assms by (simp_all add: set_index_pivot_table set_columns_pivot_table)
  have row: "map_of (zip (index ?p) (data_values ?p)) e = Some (map (?cell e) (columns ?p))"
    using e by (simp add: data_values_pivot_table map_of_zip_map)
  have cell: "map_of (zip (columns ?p) (map (?cell e) (columns ?p))) c = Some (?cell e c)"
    using c by (simp add: map_of_zip_map)
  have "?cell e c = sum_list (map kwota (filter (\<lambda>r. konto r = e \<and> paragraf r = c) df))"
  proof (cases "(e, c) \<in> (\<lambda>r. (konto r, paragraf r)) ` set df")
    case True
    then show ?thesis by (simp add: map_of_groupby_sum)
  next
    case False
    then have "filter (\<lambda>r. konto r = e \<and> paragraf r = c) df = []"
      by (auto simp: filter_empty_conv image_iff)
    then show ?thesis using False by (simp add: map_of_groupby_sum)
  qed
  moreover have "loc_cell ?p e c = Inr (?cell e c)"
    using row cell by (simp add: loc_cell_def)
  ultimately show ?thesis by simp
qed

lemma apply_series_length:
  "apply_series f xs = Inr ys \<Longrightarrow> length ys = length xs"
  by (induction xs arbitrary: ys) (auto split: sum.splits)

lemma clean_df_Inr:
  assumes "clean_df raw = Inr df"
  shows "raw \<noteq> [] \<and> length df = length raw \<and> map konto df = map konto raw"
proof -
  from assms have ne: "raw \<noteq> []" by (auto simp: clean_df_def split: if_splits)
  from assms ne obtain ks ps where
    ks: "apply_series clean_currency (map kwota raw) = Inr ks" and
    ps: "apply_series clean_paragraph (map paragraf raw) = Inr ps" and
    df: "df = map (\<lambda>(r, k, p). \<lparr>konto = konto r, paragraf = p, kwota = k\<rparr>) (zip raw (zip ks ps))"
    by (auto simp: clean_df_def split: sum.splits)
  have l: "length ks = length raw" "length ps = length raw"
    using apply_series_length[OF ks] apply_series_length[OF ps] by simp_all
  have "map konto df = map konto raw"
    unfolding df using l
    by (intro nth_equalityI) simp_all
  then show ?thesis using ne l df by simp
qed

text \<open>
  C1: for every account \<open>e\<close> and every paragraph \<open>c\<close> that occur in the cleaned
  records, the cell of the pivot table at \<open>(e, c)\<close> is the sum of the amounts of the
  records with that pair, and it is 0 (a cell that exists, not a missing one) when no
  record has the pair.
\<close>

theorem pivot_cell_is_sum:
  assumes "clean_df raw = Inr df" and "e \<in> konto ` set df" and "c \<in> paragraf ` set df"
  shows "\<exists>p. pivot_df raw = Inr p \<and>
           loc_cell p e c =
             Inr (sum_list (map kwota (filter (\<lambda>r. konto r = e \<and> paragraf r = c) df))) \<and>
           ((\<forall>r \<in> set df. \<not> (konto r = e \<and> paragraf r = c)) \<longrightarrow> loc_cell p e c = Inr 0)"
proof -
  have p: "pivot_df raw = Inr (pivot_table df)"
    using assms(1) by (simp add: pivot_df_def)
  have s: "loc_cell (pivot_table df) e c =
             Inr (sum_list (map kwota (filter (\<lambda>r. konto r = e \<and> paragraf r = c) df)))"
    using assms(2,3) by (rule loc_cell_pivot_table)
  have "(\<forall>r \<in> set df. \<not> (konto r = e \<and> paragraf r = c)) \<longrightarrow>
          filter (\<lambda>r. konto r = e \<and> paragraf r = c) df = []"
    by (simp add: filter_empty_conv)
  then show ?thesis using p s by auto
qed

lemma clean_df_raw_data:
  "clean_df raw_data =
     Inr [\<lparr>konto = ''Konto_A'', paragraf = ''4210'', kwota = 5000\<rparr>,
      \<lparr>konto = ''Konto_A'', paragraf = ''4300'', kwota = 100\<rparr>,
      \<lparr>konto = ''Konto_B'', paragraf = ''4300'', kwota = 4000\<rparr>,
      \<lparr>konto = ''Konto_B'', paragraf = ''4210'', kwota = 100\<rparr>,
      \<lparr>konto = ''Konto_C'', paragraf = ''4210'', kwota = 4800\<rparr>,
      \<lparr>konto = ''Konto_D'', paragraf = ''4300'', kwota = 4200\<rparr>]"
  by (simp add: raw_data_def pivot_eval_defs)

theorem pivot_cell_is_sum_witness:
  "\<exists>p. pivot_df raw_data = Inr p \<and> loc_cell p ''Konto_A'' ''4210'' = Inr 5000
       \<and> loc_cell p ''Konto_C'' ''4300'' = Inr 0"
  using pivot_cell_is_sum [OF clean_df_raw_data, of "''Konto_A''" "''4210''"]
    pivot_cell_is_sum [OF clean_df_raw_data, of "''Konto_C''" "''4300''"]
  by auto

section \<open>Empty input\<close>

lemma pivot_df_Inr:
  assumes "pivot_df raw = Inr p"
  shows "raw \<noteq> [] \<and> index p \<noteq> [] \<and> columns p \<noteq> []"
proof -
  from assms obtain df where df: "clean_df raw = Inr df" and p: "p = pivot_table df"
    by (auto simp: pivot_df_def split: sum.splits)
  from clean_df_Inr[OF df] have "raw \<noteq> []" "df \<noteq> []" by auto
  then have "konto ` set df \<noteq> {}" "paragraf ` set df \<noteq> {}" by simp_all
  then have "set (index p) \<noteq> {}" "set (columns p) \<noteq> {}"
    by (simp_all add: p set_index_pivot_table set_columns_pivot_table)
  then show ?thesis using \<open>raw \<noteq> []\<close> by auto
qed

text \<open>
  C3, as stated, fails: without records the script stops with the \<^verbatim>\<open>KeyError\<close> of line
  125, not with an \<^verbatim>\<open>EmptyInputError\<close>, which no line raises.
\<close>

theorem empty_input_counterexample:
  "prepare_som [] = Inl (KeyError ''kwota'') \<and> prepare_som [] \<noteq> Inl EmptyInputError"
  by (simp add: prepare_som_def pivot_df_def clean_df_def)

text \<open>
  C3, amended: when the records hold no account or no paragraph, which is when there
  is no record, the script stops with \<^verbatim>\<open>KeyError('kwota')\<close> before the normalisation and
  the training; and every pivot table that is built has a row and a column at least.
\<close>

theorem empty_input_key_error:
  "(konto ` set raw = {} \<or> paragraf ` set raw = {} \<longrightarrow>
      prepare_som raw = Inl (KeyError ''kwota'')) \<and>
   (\<forall>p. pivot_df raw = Inr p \<longrightarrow> index p \<noteq> [] \<and> columns p \<noteq> [])"
proof -
  have "konto ` set raw = {} \<or> paragraf ` set raw = {} \<longrightarrow> raw = []" by simp
  moreover have "prepare_som [] = Inl (KeyError ''kwota'')"
    by (simp add: prepare_som_def pivot_df_def clean_df_def)
  ultimately show ?thesis using pivot_df_Inr by blast
qed

theorem empty_input_key_error_witness:
  "konto ` set ([] :: pyval transaction list) = {} \<and>
   prepare_som [] = Inl (KeyError ''kwota'') \<and>
   (\<exists>p. pivot_df raw_data = Inr p \<and> index p \<noteq> [] \<and> columns p \<noteq> [])"
  using empty_input_key_error [of "[]"] empty_input_key_error [of raw_data] pivot_df_raw_data
  by simp

section \<open>Normalisation\<close>

lemma foldl_map2_nth:
  assumes "\<forall>r \<in> set rs. length r = length r0" and "j < length r0"
  shows "length (foldl (map2 f) r0 rs) = length r0 \<and>
         foldl (map2 f) r0 rs ! j = foldl f (r0 ! j) (map (\<lambda>r. r ! j) rs)"
  using assms
proof (induction rs arbitrary: r0)
  case Nil
  then show ?case by simp
next
  case (Cons r rs)
  have l: "length (map2 f r0 r) = length r0" using Cons.prems by simp
  have "\<forall>r' \<in> set rs. length r' = length (map2 f r0 r)" using Cons.prems l by simp
  moreover have "j < length (map2 f r0 r)" using Cons.prems l by simp
  ultimately have "length (foldl (map2 f) (map2 f r0 r) rs) = length (map2 f r0 r) \<and>
      foldl (map2 f) (map2 f r0 r) rs ! j = foldl f (map2 f r0 r ! j) (map (\<lambda>r. r ! j) rs)"
    by (rule Cons.IH)
  moreover have "map2 f r0 r ! j = f (r0 ! j) (r ! j)" using Cons.prems by simp
  ultimately show ?case using l by simp
qed

lemma foldl_min_Min: "foldl min (x::real) xs = Min (set (x # xs))"
proof -
  have "foldl min x xs = fold min xs x"
    by (simp add: foldl_conv_fold min.commute)
  then show ?thesis by (simp only: Min.set_eq_fold)
qed

lemma foldl_max_Max: "foldl max (x::real) xs = Max (set (x # xs))"
proof -
  have "foldl max x xs = fold max xs x"
    by (simp add: foldl_conv_fold max.commute)
  then show ?thesis by (simp only: Max.set_eq_fold)
qed

lemma amin0_column:
  assumes "a \<noteq> []" and "\<forall>r \<in> set a. length r = n"
  shows "\<exists>mn. amin0 a = Inr mn \<and> length mn = n \<and>
           (\<forall>j < n. mn ! j = Min ((\<lambda>r. r ! j) ` set a))"
proof -
  from assms(1) obtain r rs where a: "a = r # rs" by (cases a) auto
  have len: "length r = n" "\<forall>r' \<in> set rs. length r' = length r"
    using assms(2) a by simp_all
  have "\<forall>j < n. foldl (map2 min) r rs ! j = Min ((\<lambda>r. r ! j) ` set a)"
  proof (intro allI impI)
    fix j assume "j < n"
    then have "foldl (map2 min) r rs ! j = foldl min (r ! j) (map (\<lambda>r. r ! j) rs)"
      using foldl_map2_nth[OF len(2), of j min] len(1) by simp
    then show "foldl (map2 min) r rs ! j = Min ((\<lambda>r. r ! j) ` set a)"
      by (simp add: foldl_min_Min a)
  qed
  moreover have "length (foldl (map2 min) r rs) = n"
  proof (cases "n = 0")
    case True
    then show ?thesis using len by (induction rs arbitrary: r) auto
  next
    case False
    then show ?thesis using foldl_map2_nth[OF len(2), of 0 min] len(1) by simp
  qed
  ultimately show ?thesis by (simp add: amin0_def a)
qed

lemma amax0_column:
  assumes "a \<noteq> []" and "\<forall>r \<in> set a. length r = n"
  shows "\<exists>mx. amax0 a = Inr mx \<and> length mx = n \<and>
           (\<forall>j < n. mx ! j = Max ((\<lambda>r. r ! j) ` set a))"
proof -
  from assms(1) obtain r rs where a: "a = r # rs" by (cases a) auto
  have len: "length r = n" "\<forall>r' \<in> set rs. length r' = length r"
    using assms(2) a by simp_all
  have "\<forall>j < n. foldl (map2 max) r rs ! j = Max ((\<lambda>r. r ! j) ` set a)"
  proof (intro allI impI)
    fix j assume "j < n"
    then have "foldl (map2 max) r rs ! j = foldl max (r ! j) (map (\<lambda>r. r ! j) rs)"
      using foldl_map2_nth[OF len(2), of j max] len(1) by simp
    then show "foldl (map2 max) r rs ! j = Max ((\<lambda>r. r ! j) ` set a)"
      by (simp add: foldl_max_Max a)
  qed
  moreover have "length (foldl (map2 max) r rs) = n"
  proof (cases "n = 0")
    case True
    then show ?thesis using len by (induction rs arbitrary: r) auto
  next
    case False
    then show ?thesis using foldl_map2_nth[OF len(2), of 0 max] len(1) by simp
  qed
  ultimately show ?thesis by (simp add: amax0_def a)
qed

lemma epsilon_pos: "0 < epsilon"
  by (simp add: epsilon_def)

lemma minmax_scale:
  fixes x mn mx :: real
  assumes "mn \<le> x" and "x \<le> mx"
  shows "0 < mx - mn + epsilon"
    and "0 \<le> (x - mn) / (mx - mn + epsilon)"
    and "(x - mn) / (mx - mn + epsilon) \<le> 1"
    and "mx = mn \<Longrightarrow> (x - mn) / (mx - mn + epsilon) = 0"
proof -
  show d: "0 < mx - mn + epsilon" using assms epsilon_pos by linarith
  show "0 \<le> (x - mn) / (mx - mn + epsilon)" using assms d by simp
  have "x - mn \<le> mx - mn + epsilon" using assms epsilon_pos by linarith
  then show "(x - mn) / (mx - mn + epsilon) \<le> 1" using d by simp
  show "mx = mn \<Longrightarrow> (x - mn) / (mx - mn + epsilon) = 0" using assms by simp
qed

text \<open>
  C2: the normalisation of a matrix with a row at least gives a new matrix of the same
  shape. Its entry in column \<open>j\<close> is \<open>(x - min\<^sub>j) / (max\<^sub>j - min\<^sub>j + \<epsilon>)\<close>, with the
  minimum and the maximum of column \<open>j\<close> alone; the divisor is positive, so nothing
  is divided by zero; the entry lies in \<open>[0, 1]\<close> when \<open>min\<^sub>j < max\<^sub>j\<close> and is 0 in a
  constant column.
\<close>

theorem data_normalized_minmax:
  assumes "a \<noteq> []" and "\<forall>r \<in> set a. length r = n"
  shows "\<exists>b. data_normalized a = Inr b \<and> length b = length a \<and>
           (\<forall>r \<in> set b. length r = n) \<and>
           (\<forall>i < length a. \<forall>j < n.
              let mn = Min ((\<lambda>r. r ! j) ` set a); mx = Max ((\<lambda>r. r ! j) ` set a) in
                0 < mx - mn + epsilon \<and>
                b ! i ! j = (a ! i ! j - mn) / (mx - mn + epsilon) \<and>
                (mn < mx \<longrightarrow> 0 \<le> b ! i ! j \<and> b ! i ! j \<le> 1) \<and>
                (mx = mn \<longrightarrow> b ! i ! j = 0))"
proof -
  obtain mn where mn: "amin0 a = Inr mn" "length mn = n"
    "\<forall>j < n. mn ! j = Min ((\<lambda>r. r ! j) ` set a)"
    using amin0_column[OF assms] by blast
  obtain mx where mx: "amax0 a = Inr mx" "length mx = n"
    "\<forall>j < n. mx ! j = Max ((\<lambda>r. r ! j) ` set a)"
    using amax0_column[OF assms] by blast
  define scale where "scale = (\<lambda>row. map2 (/) (map2 (-) row mn)
                                  (map (\<lambda>d. d + epsilon) (map2 (-) mx mn)))"
  define b where "b = map scale a"
  have res: "data_normalized a = Inr b"
    by (simp add: data_normalized_def mn(1) mx(1) b_def scale_def)
  have lb: "length b = length a" by (simp add: b_def)
  have lr: "\<forall>r \<in> set b. length r = n"
    using assms(2) mn(2) mx(2) by (auto simp: b_def scale_def)
  have cell: "b ! i ! j = (a ! i ! j - mn ! j) / (mx ! j - mn ! j + epsilon)"
    if "i < length a" "j < n" for i j
  proof -
    have "length (a ! i) = n" using assms(2) that(1) by simp
    then show ?thesis using that mn(2) mx(2) by (simp add: b_def scale_def)
  qed
  have main: "let mn' = Min ((\<lambda>r. r ! j) ` set a); mx' = Max ((\<lambda>r. r ! j) ` set a) in
                0 < mx' - mn' + epsilon \<and>
                b ! i ! j = (a ! i ! j - mn') / (mx' - mn' + epsilon) \<and>
                (mn' < mx' \<longrightarrow> 0 \<le> b ! i ! j \<and> b ! i ! j \<le> 1) \<and>
                (mx' = mn' \<longrightarrow> b ! i ! j = 0)"
    if "i < length a" "j < n" for i j
  proof -
    let ?col = "(\<lambda>r. r ! j) ` set a"
    have "a ! i ! j \<in> ?col" using that(1) by (simp add: image_iff) (metis nth_mem)
    then have lo: "Min ?col \<le> a ! i ! j" and hi: "a ! i ! j \<le> Max ?col"
      by simp_all
    have c: "b ! i ! j = (a ! i ! j - Min ?col) / (Max ?col - Min ?col + epsilon)"
      using cell[OF that] mn(3) mx(3) that(2) by simp
    show ?thesis
      unfolding Let_def c using minmax_scale[OF lo hi] by simp
  qed
  show ?thesis
    using res lb lr main by blast
qed

theorem data_normalized_minmax_witness:
  "[[0, 5], [10, 5 :: real]] \<noteq> [] \<and> list_all (\<lambda>r. length r = 2) [[0, 5], [10, 5 :: real]] \<and>
   (\<exists>b. data_normalized [[0, 5], [10, 5]] = Inr b \<and> length b = 2 \<and>
        b ! 1 ! 0 = 10 / (10 + epsilon) \<and> 0 \<le> b ! 1 ! 0 \<and> b ! 1 ! 0 \<le> 1 \<and> b ! 0 ! 1 = 0)"
proof -
  let ?a = "[[0, 5], [10, 5 :: real]]"
  have h1: "?a \<noteq> []" by simp
  have h2: "\<forall>r \<in> set ?a. length r = 2" by simp
  obtain b where b: "data_normalized ?a = Inr b" "length b = length ?a"
    and cells: "\<forall>i < length ?a. \<forall>j < 2.
              let mn = Min ((\<lambda>r. r ! j) ` set ?a); mx = Max ((\<lambda>r. r ! j) ` set ?a) in
                0 < mx - mn + epsilon \<and>
                b ! i ! j = (?a ! i ! j - mn) / (mx - mn + epsilon) \<and>
                (mn < mx \<longrightarrow> 0 \<le> b ! i ! j \<and> b ! i ! j \<le> 1) \<and>
                (mx = mn \<longrightarrow> b ! i ! j = 0)"
    using data_normalized_minmax [OF h1 h2] by blast
  have "1 < length ?a" "(0::nat) < 2" by simp_all
  with cells have c10: "let mn = Min ((\<lambda>r. r ! 0) ` set ?a); mx = Max ((\<lambda>r. r ! 0) ` set ?a) in
                0 < mx - mn + epsilon \<and>
                b ! 1 ! 0 = (?a ! 1 ! 0 - mn) / (mx - mn + epsilon) \<and>
                (mn < mx \<longrightarrow> 0 \<le> b ! 1 ! 0 \<and> b ! 1 ! 0 \<le> 1) \<and>
                (mx = mn \<longrightarrow> b ! 1 ! 0 = 0)" by blast
  have "0 < length ?a" "(1::nat) < 2" by simp_all
  with cells have c01: "let mn = Min ((\<lambda>r. r ! 1) ` set ?a); mx = Max ((\<lambda>r. r ! 1) ` set ?a) in
                0 < mx - mn + epsilon \<and>
                b ! 0 ! 1 = (?a ! 0 ! 1 - mn) / (mx - mn + epsilon) \<and>
                (mn < mx \<longrightarrow> 0 \<le> b ! 0 ! 1 \<and> b ! 0 ! 1 \<le> 1) \<and>
                (mx = mn \<longrightarrow> b ! 0 ! 1 = 0)" by blast
  from c10 have "b ! 1 ! 0 = 10 / (10 + epsilon) \<and> 0 \<le> b ! 1 ! 0 \<and> b ! 1 ! 0 \<le> 1"
    using epsilon_pos by (simp add: Let_def)
  moreover from c01 have "b ! 0 ! 1 = 0" by (simp add: Let_def)
  ultimately show ?thesis using b by auto
qed

section \<open>The winner is the best matching unit\<close>

lemma argmin_less_length: "xs \<noteq> [] \<Longrightarrow> argmin xs < length xs"
proof (induction xs)
  case Nil
  then show ?case by simp
next
  case (Cons v vs)
  show ?case
  proof (cases "\<forall>u \<in> set vs. v \<le> u")
    case True
    then show ?thesis by simp
  next
    case False
    then have "vs \<noteq> []" by auto
    then show ?thesis using False Cons.IH by simp
  qed
qed

lemma argmin_least: "j < length xs \<Longrightarrow> xs ! argmin xs \<le> xs ! j"
proof (induction xs arbitrary: j)
  case Nil
  then show ?case by simp
next
  case (Cons v vs)
  show ?case
  proof (cases "\<forall>u \<in> set vs. v \<le> u")
    case True
    then show ?thesis using Cons.prems by (cases j) auto
  next
    case False
    then obtain u where u: "u \<in> set vs" "u < v" by auto
    then obtain i where i: "i < length vs" "vs ! i = u" by (auto simp: in_set_conv_nth)
    have a: "vs ! argmin vs \<le> u" using Cons.IH[OF i(1)] i(2) by simp
    show ?thesis
    proof (cases j)
      case 0
      then show ?thesis using False a u by auto
    next
      case (Suc j')
      then show ?thesis using False Cons.IH[of j'] Cons.prems by auto
    qed
  qed
qed

lemma argmin_first: "j < argmin xs \<Longrightarrow> xs ! argmin xs < xs ! j"
proof (induction xs arbitrary: j)
  case Nil
  then show ?case by simp
next
  case (Cons v vs)
  show ?case
  proof (cases "\<forall>u \<in> set vs. v \<le> u")
    case True
    then show ?thesis using Cons.prems by simp
  next
    case False
    then obtain u where u: "u \<in> set vs" "u < v" by auto
    then obtain i where i: "i < length vs" "vs ! i = u" by (auto simp: in_set_conv_nth)
    have a: "vs ! argmin vs \<le> u" using argmin_least[OF i(1)] i(2) by simp
    have am: "argmin (v # vs) = Suc (argmin vs)" using False by simp
    show ?thesis
    proof (cases j)
      case 0
      then show ?thesis using am a u by simp
    next
      case (Suc j')
      then have "j' < argmin vs" using Cons.prems am by simp
      then have "vs ! argmin vs < vs ! j'" by (rule Cons.IH)
      then show ?thesis using am Suc by simp
    qed
  qed
qed

lemma concat_rect:
  assumes "\<forall>row \<in> set xss. length row = n"
  shows "length (concat xss) = length xss * n"
    and "r < length xss \<Longrightarrow> c < n \<Longrightarrow> concat xss ! (r * n + c) = xss ! r ! c"
  using assms
proof (induction xss arbitrary: r)
  case Nil
  { case 1 show ?case by simp }
  { case 2 then show ?case by simp }
next
  case (Cons row xss)
  { case 1
    then show ?case using Cons.IH(1) by simp }
  { case 2
    then have l: "length row = n" and rest: "\<forall>row \<in> set xss. length row = n" by simp_all
    show ?case
    proof (cases r)
      case 0
      then show ?thesis using 2 l by (simp add: nth_append)
    next
      case (Suc r')
      then have "r' < length xss" using 2 by simp
      then have "concat xss ! (r' * n + c) = xss ! r' ! c"
        using Cons.IH(2) 2 rest by simp
      moreover have "r * n + c = length row + (r' * n + c)" using Suc l by simp
      ultimately show ?thesis using Suc by (simp only: concat.simps nth_append_length_plus nth_Cons_Suc)
    qed }
qed

lemma lex_of_flat:
  fixes r c r' c' n :: nat
  assumes "r * n + c \<le> r' * n + c'" and "c < n" and "c' < n"
  shows "r < r' \<or> (r = r' \<and> c \<le> c')"
proof (cases "r' < r")
  case True
  then have "Suc r' \<le> r" by simp
  then have "Suc r' * n \<le> r * n" by (rule mult_le_mono1)
  then have "r' * n + n \<le> r * n" by simp
  then show ?thesis using assms by linarith
next
  case False
  then show ?thesis using assms by (cases "r = r'") auto
qed

text \<open>
  C5: on a grid of \<open>n\<close> columns whose weight vectors have the length of the input,
  \<^const>\<open>winner\<close> returns the coordinates of a neuron of the grid, no neuron is nearer
  to the input in Euclidean distance, and every neuron at the same distance has
  coordinates that are not smaller in the lexicographic order of (row, column).
\<close>

theorem winner_is_bmu:
  assumes "weights \<noteq> []" and "0 < n" and "\<forall>row \<in> set weights. length row = n"
    and "\<forall>row \<in> set weights. \<forall>w \<in> set row. length w = length x"
  shows "\<exists>r c. winner weights x = Inr (r, c) \<and> r < length weights \<and> c < n \<and>
           (\<forall>r' < length weights. \<forall>c' < n.
              euclidean x (weights ! r ! c) \<le> euclidean x (weights ! r' ! c') \<and>
              (euclidean x (weights ! r' ! c') = euclidean x (weights ! r ! c) \<longrightarrow>
                 r < r' \<or> (r = r' \<and> c \<le> c')))"
proof -
  define amap where "amap = map (map (euclidean x)) weights"
  define flat where "flat = concat amap"
  define k where "k = argmin flat"
  have rect: "\<forall>row \<in> set amap. length row = n"
    using assms(3) by (auto simp: amap_def)
  have la: "length amap = length weights" by (simp add: amap_def)
  have lf: "length flat = length weights * n"
    using concat_rect(1)[OF rect] la by (simp add: flat_def)
  have cell: "flat ! (r * n + c) = euclidean x (weights ! r ! c)"
    if "r < length weights" "c < n" for r c
  proof -
    have "flat ! (r * n + c) = amap ! r ! c"
      unfolding flat_def using concat_rect(2)[OF rect] that la by simp
    moreover have "length (weights ! r) = n" using assms(3) that(1) by simp
    ultimately show ?thesis using that by (simp add: amap_def)
  qed
  obtain row rows where w: "weights = row # rows" using assms(1) by (cases weights) auto
  have lrow: "length row = n" using assms(3) w by simp
  then have "row \<noteq> []" using assms(2) by auto
  moreover have "\<not> (\<exists>v \<in> set (concat weights). length v \<noteq> length x)"
    using assms(4) by auto
  ultimately have res: "winner weights x = Inr (k div n, k mod n)"
    using w lrow
    by (simp add: winner_def unravel_index_def k_def flat_def amap_def del: set_concat)
  have "flat \<noteq> []" using lf assms(1,2) by (cases flat) auto
  then have klt: "k < length weights * n"
    using argmin_less_length[of flat] lf by (simp add: k_def)
  have r: "k div n < length weights"
    using klt assms(2) by (simp add: less_mult_imp_div_less)
  have c: "k mod n < n" using assms(2) by simp
  have kk: "k div n * n + k mod n = k" by simp
  have best: "euclidean x (weights ! (k div n) ! (k mod n)) \<le> euclidean x (weights ! r' ! c') \<and>
              (euclidean x (weights ! r' ! c') = euclidean x (weights ! (k div n) ! (k mod n)) \<longrightarrow>
                 k div n < r' \<or> (k div n = r' \<and> k mod n \<le> c'))"
    if "r' < length weights" "c' < n" for r' c'
  proof -
    let ?k' = "r' * n + c'"
    have "Suc r' * n \<le> length weights * n" using that(1) by (intro mult_le_mono1) simp
    then have k': "?k' < length flat" using that(2) lf by simp
    have fk: "flat ! k = euclidean x (weights ! (k div n) ! (k mod n))"
      using cell[OF r c] kk by simp
    have fk': "flat ! ?k' = euclidean x (weights ! r' ! c')"
      using cell[OF that] .
    have le: "flat ! k \<le> flat ! ?k'"
      unfolding k_def using k' by (rule argmin_least)
    have "k \<le> ?k'" if "flat ! ?k' = flat ! k"
    proof (rule ccontr)
      assume "\<not> k \<le> ?k'"
      then have "?k' < argmin flat" by (simp add: k_def)
      then have "flat ! argmin flat < flat ! ?k'" by (rule argmin_first)
      then show False using that by (simp add: k_def)
    qed
    then have "flat ! ?k' = flat ! k \<longrightarrow> k div n < r' \<or> (k div n = r' \<and> k mod n \<le> c')"
      using lex_of_flat[of "k div n" n "k mod n" r' c'] c that(2) kk by auto
    then show ?thesis using le fk fk' by simp
  qed
  show ?thesis
    using res r c best by blast
qed

theorem winner_is_bmu_witness:
  "[[[1], [0]], [[0], [1 :: real]]] \<noteq> [] \<and>
   list_all (\<lambda>row. length row = 2) [[[1], [0]], [[0], [1 :: real]]] \<and>
   list_all (list_all (\<lambda>w. length w = length [0 :: real])) [[[1], [0]], [[0], [1 :: real]]] \<and>
   winner [[[1], [0]], [[0], [1]]] [0] = Inr (0, 1) \<and>
   (\<exists>r c. winner [[[1], [0]], [[0], [1]]] [0] = Inr (r, c) \<and> r < 2 \<and> c < 2)"
proof -
  let ?g = "[[[1], [0]], [[0], [1 :: real]]]"
  have h1: "?g \<noteq> []" and h2: "(0::nat) < 2" and h3: "\<forall>row \<in> set ?g. length row = 2"
    and h4: "\<forall>row \<in> set ?g. \<forall>w \<in> set row. length w = length [0 :: real]"
    by simp_all
  have "\<exists>r c. winner ?g [0] = Inr (r, c) \<and> r < length ?g \<and> c < 2"
    using winner_is_bmu [OF h1 h2 h3 h4] by blast
  moreover have "winner ?g [0] = Inr (0, 1)"
    by (simp add: winner_def euclidean_def unravel_index_def)
  ultimately show ?thesis by simp
qed

section \<open>Groups of accounts\<close>

lemma add_account_keys:
  "map fst (add_account w a g) = (if map_of g w = None then map fst g @ [w] else map fst g)"
  by (auto simp: add_account_def Let_def case_prod_unfold comp_def)

lemma append_to_absent:
  "w \<notin> fst ` set g \<Longrightarrow>
   map (\<lambda>(k, accounts). if k = w then (k, accounts @ [a]) else (k, accounts)) g = g"
  by (induction g) auto

lemma append_to_present:
  "distinct (map fst g) \<Longrightarrow> w \<in> fst ` set g \<Longrightarrow>
   mset (concat (map snd (map (\<lambda>(k, accounts). if k = w then (k, accounts @ [a]) else (k, accounts)) g)))
     = mset (concat (map snd g)) + {#a#}"
proof (induction g)
  case Nil
  then show ?case by simp
next
  case (Cons ka g)
  obtain k accounts where ka: "ka = (k, accounts)" by (cases ka)
  show ?case
  proof (cases "k = w")
    case True
    then have "w \<notin> fst ` set g" using Cons.prems(1) ka by auto
    then show ?thesis using True ka by (simp add: append_to_absent)
  next
    case False
    then have "w \<in> fst ` set g" using Cons.prems(2) ka by auto
    then show ?thesis using False ka Cons.IH Cons.prems(1) by simp
  qed
qed

lemma add_account_members:
  assumes "distinct (map fst g)"
  shows "mset (concat (map snd (add_account w a g))) = mset (concat (map snd g)) + {#a#}"
proof (cases "map_of g w")
  case None
  then have "w \<notin> fst ` set g" by (simp add: map_of_eq_None_iff)
  then show ?thesis using None by (simp add: add_account_def append_to_absent)
next
  case (Some v)
  then have "w \<in> fst ` set g" by (metis map_of_eq_None_iff option.distinct(1))
  moreover have "add_account w a g =
      map (\<lambda>(k, accounts). if k = w then (k, accounts @ [a]) else (k, accounts)) g"
    using Some by (simp add: add_account_def)
  ultimately show ?thesis using append_to_present[OF assms] by (simp only:)
qed

lemma add_account_distinct:
  assumes "distinct (map fst g)"
  shows "distinct (map fst (add_account w a g))"
  using assms by (auto simp: add_account_keys map_of_eq_None_iff)

lemma add_account_nonempty:
  assumes "\<forall>ka \<in> set g. snd ka \<noteq> []"
  shows "\<forall>ka \<in> set (add_account w a g). snd ka \<noteq> []"
  using assms by (auto simp: add_account_def Let_def split: if_splits)

lemma group_loop_invariant:
  assumes "group_loop som zs g0 = Inr g" and "distinct (map fst g0)"
    and "\<forall>ka \<in> set g0. snd ka \<noteq> []"
  shows "distinct (map fst g) \<and> (\<forall>ka \<in> set g. snd ka \<noteq> []) \<and>
         mset (concat (map snd g)) = mset (concat (map snd g0)) + mset (map fst zs)"
  using assms
proof (induction zs arbitrary: g0)
  case Nil
  then show ?case by simp
next
  case (Cons z zs)
  obtain a row where z: "z = (a, row)" by (cases z)
  from Cons.prems(1) z obtain w where w: "winner som row = Inr w"
    and rest: "group_loop som zs (add_account w a g0) = Inr g"
    by (auto split: sum.splits)
  have "distinct (map fst g) \<and> (\<forall>ka \<in> set g. snd ka \<noteq> []) \<and>
        mset (concat (map snd g)) =
          mset (concat (map snd (add_account w a g0))) + mset (map fst zs)"
    using rest add_account_distinct[OF Cons.prems(2)] add_account_nonempty[OF Cons.prems(3)]
    by (rule Cons.IH)
  then show ?case
    using add_account_members[OF Cons.prems(2)] z by simp
qed

lemma grouped_accounts_members:
  assumes "grouped_accounts som idx normalized = Inr g" and "length normalized = length idx"
  shows "distinct (map fst g) \<and> (\<forall>ka \<in> set g. snd ka \<noteq> []) \<and>
         mset (concat (map snd g)) = mset idx"
proof -
  have "map fst (zip idx normalized) = idx" using assms(2) by simp
  then show ?thesis
    using group_loop_invariant[of som "zip idx normalized" "[]" g] assms(1)
    by (simp add: grouped_accounts_def)
qed

lemma distinct_concat_disjoint:
  "distinct (concat xss) \<Longrightarrow> i < j \<Longrightarrow> j < length xss \<Longrightarrow> set (xss ! i) \<inter> set (xss ! j) = {}"
proof (induction xss arbitrary: i j)
  case Nil
  then show ?case by simp
next
  case (Cons xs xss)
  obtain j' where j: "j = Suc j'" using Cons.prems(2) by (cases j) auto
  show ?case
  proof (cases i)
    case 0
    have "xss ! j' \<in> set xss" using Cons.prems(3) j by simp
    then show ?thesis using Cons.prems(1) 0 j by auto
  next
    case (Suc i')
    then show ?thesis using Cons.IH[of i' j'] Cons.prems j by simp
  qed
qed

lemma distinct_concat_unique:
  assumes "distinct (concat xss)" and "i < length xss" and "j < length xss"
    and "e \<in> set (xss ! i)" and "e \<in> set (xss ! j)"
  shows "i = j"
proof (rule ccontr)
  assume "i \<noteq> j"
  then consider "i < j" | "j < i" by linarith
  then show False
  proof cases
    case 1
    then show ?thesis using distinct_concat_disjoint[OF assms(1) 1 assms(3)] assms(4,5) by auto
  next
    case 2
    then show ?thesis using distinct_concat_disjoint[OF assms(1) 2 assms(2)] assms(4,5) by auto
  qed
qed

lemma data_normalized_length:
  "data_normalized a = Inr b \<Longrightarrow> length b = length a"
  by (auto simp: data_normalized_def split: sum.splits)

lemma length_data_values_pivot_table:
  "length (data_values (pivot_table df)) = length (index (pivot_table df))"
  by (simp add: data_values_pivot_table)

text \<open>
  C7: when the script reaches the end of the grouping loop, the member lists of the
  groups partition the accounts of the input: their union is the set of accounts, no
  account occurs twice, and every account is in exactly one group.
\<close>

theorem members_partition_accounts:
  assumes "clean_df raw = Inr df"
    and "data_normalized (data_values (pivot_table df)) = Inr normalized"
    and "grouped_accounts som (index (pivot_table df)) normalized = Inr g"
  shows "\<Union> (set ` snd ` set g) = konto ` set raw \<and>
         distinct (concat (map snd g)) \<and>
         (\<forall>e \<in> konto ` set raw. \<exists>!i. i < length g \<and> e \<in> set (snd (g ! i)))"
proof -
  let ?idx = "index (pivot_table df)"
  have len: "length normalized = length ?idx"
    using data_normalized_length[OF assms(2)] by (simp add: length_data_values_pivot_table)
  have m: "mset (concat (map snd g)) = mset ?idx"
    using grouped_accounts_members[OF assms(3) len] by simp
  have "set (map konto df) = set (map konto raw)"
    using clean_df_Inr[OF assms(1)] by simp
  then have accounts: "set ?idx = konto ` set raw"
    by (simp add: set_index_pivot_table)
  have d: "distinct (concat (map snd g))"
    using m distinct_index_pivot_table[of df] by (metis mset_eq_imp_distinct_iff)
  have s: "set (concat (map snd g)) = konto ` set raw"
    using m accounts by (metis mset_eq_setD)
  then have u: "\<Union> (set ` snd ` set g) = konto ` set raw" by (simp add: image_image)
  have "\<exists>!i. i < length g \<and> e \<in> set (snd (g ! i))" if "e \<in> konto ` set raw" for e
  proof -
    from that s have "e \<in> set (concat (map snd g))" by simp
    then obtain ka where "ka \<in> set g" "e \<in> set (snd ka)" by auto
    then obtain i where i: "i < length g" "e \<in> set (snd (g ! i))"
      by (auto simp: in_set_conv_nth)
    have "j = i" if "j < length g" "e \<in> set (snd (g ! j))" for j
      using distinct_concat_unique[OF d, of j i e] that i by simp
    then show ?thesis using i by blast
  qed
  then show ?thesis using u d by blast
qed

section \<open>A run on three accounts\<close>

lemma euclidean_one_dim: "euclidean [a] [b] = \<bar>a - b\<bar>"
  by (simp add: euclidean_def)

lemma winner_two_neurons:
  "winner two_neurons [a] = Inr (if a \<le> 1 / 2 then (0, 0) else (0, 1))"
proof -
  have "\<bar>a\<bar> \<le> \<bar>a - 1\<bar> \<longleftrightarrow> a \<le> 1 / 2" by linarith
  then show ?thesis
    by (simp add: winner_def euclidean_one_dim unravel_index_def)
qed

lemma clean_df_three_accounts: "clean_df three_accounts = Inr three_accounts_df"
  by (simp add: pivot_eval_defs re_sub_non_numeric_def replace_comma_def float_of_str_def
      float_of_body_def is_digit_def digits_val_def digit_val_def)

lemma pivot_table_three_accounts:
  "pivot_table three_accounts_df =
     \<lparr>index = [''A'', ''B'', ''C''], columns = [''4210''], data_values = [[10], [0], [10]]\<rparr>"
  by (simp add: pivot_eval_defs)

lemma data_normalized_three_accounts:
  "data_normalized (data_values (pivot_table three_accounts_df)) =
     Inr [[10 / (10 + epsilon)], [0], [10 / (10 + epsilon)]]"
  by (simp add: pivot_table_three_accounts data_normalized_def amin0_def amax0_def)

lemma grouped_accounts_three_accounts:
  "grouped_accounts two_neurons (index (pivot_table three_accounts_df))
       [[10 / (10 + epsilon)], [0], [10 / (10 + epsilon)]] =
     Inr [((0, 1), [''A'', ''C'']), ((0, 0), [''B''])]"
proof -
  have "\<not> 10 / (10 + epsilon) \<le> 1 / 2" by (simp add: epsilon_def)
  then show ?thesis
    by (simp add: pivot_table_three_accounts grouped_accounts_def winner_two_neurons
        add_account_def)
qed

theorem members_partition_accounts_witness:
  "clean_df three_accounts = Inr three_accounts_df \<and>
   data_normalized (data_values (pivot_table three_accounts_df)) =
     Inr [[10 / (10 + epsilon)], [0], [10 / (10 + epsilon)]] \<and>
   grouped_accounts two_neurons (index (pivot_table three_accounts_df))
       [[10 / (10 + epsilon)], [0], [10 / (10 + epsilon)]] =
     Inr [((0, 1), [''A'', ''C'']), ((0, 0), [''B''])] \<and>
   \<Union> (set ` snd ` set [((0 :: nat, 1 :: nat), [''A'', ''C'']), ((0, 0), [''B''])]) =
     konto ` set three_accounts \<and>
   distinct (concat (map snd [((0 :: nat, 1 :: nat), [''A'', ''C'']), ((0, 0), [''B''])]))"
  using members_partition_accounts [OF clean_df_three_accounts
      data_normalized_three_accounts grouped_accounts_three_accounts]
    clean_df_three_accounts data_normalized_three_accounts grouped_accounts_three_accounts
  by blast

section \<open>The dominant paragraph\<close>

lemma argmax_less_length: "xs \<noteq> [] \<Longrightarrow> argmax xs < length xs"
proof (induction xs)
  case Nil
  then show ?case by simp
next
  case (Cons v vs)
  show ?case
  proof (cases "\<forall>u \<in> set vs. u \<le> v")
    case True
    then show ?thesis by simp
  next
    case False
    then have "vs \<noteq> []" by auto
    then show ?thesis using False Cons.IH by simp
  qed
qed

lemma argmax_greatest: "j < length xs \<Longrightarrow> xs ! j \<le> xs ! argmax xs"
proof (induction xs arbitrary: j)
  case Nil
  then show ?case by simp
next
  case (Cons v vs)
  show ?case
  proof (cases "\<forall>u \<in> set vs. u \<le> v")
    case True
    then show ?thesis using Cons.prems by (cases j) auto
  next
    case False
    then obtain u where u: "u \<in> set vs" "v < u" by auto
    then obtain i where i: "i < length vs" "vs ! i = u" by (auto simp: in_set_conv_nth)
    have a: "u \<le> vs ! argmax vs" using Cons.IH[OF i(1)] i(2) by simp
    have am: "argmax (v # vs) = Suc (argmax vs)" using False by simp
    show ?thesis
    proof (cases j)
      case 0
      then show ?thesis using am a u by simp
    next
      case (Suc j')
      then have "j' < length vs" using Cons.prems by simp
      then have "vs ! j' \<le> vs ! argmax vs" by (rule Cons.IH)
      then show ?thesis using am Suc by simp
    qed
  qed
qed

lemma argmax_first: "j < argmax xs \<Longrightarrow> xs ! j < xs ! argmax xs"
proof (induction xs arbitrary: j)
  case Nil
  then show ?case by simp
next
  case (Cons v vs)
  show ?case
  proof (cases "\<forall>u \<in> set vs. u \<le> v")
    case True
    then show ?thesis using Cons.prems by simp
  next
    case False
    then obtain u where u: "u \<in> set vs" "v < u" by auto
    then obtain i where i: "i < length vs" "vs ! i = u" by (auto simp: in_set_conv_nth)
    have a: "u \<le> vs ! argmax vs" using argmax_greatest[OF i(1)] i(2) by simp
    have am: "argmax (v # vs) = Suc (argmax vs)" using False by simp
    show ?thesis
    proof (cases j)
      case 0
      then show ?thesis using am a u by simp
    next
      case (Suc j')
      then have "j' < argmax vs" using Cons.prems am by simp
      then have "vs ! j' < vs ! argmax vs" by (rule Cons.IH)
      then show ?thesis using am Suc by simp
    qed
  qed
qed

lemma foldl_plus_sum: "foldl (+) (x :: real) xs = sum_list (x # xs)"
  by (induction xs arbitrary: x) (simp_all add: add.assoc)

lemma column_means_nth:
  assumes "rows \<noteq> []" and "\<forall>r \<in> set rows. length r = n" and "j < n"
  shows "length (column_means rows) = n"
    and "column_means rows ! j = sum_list (map (\<lambda>r. r ! j) rows) / real (length rows)"
proof -
  from assms(1) obtain r rs where rows: "rows = r # rs" by (cases rows) auto
  have len: "\<forall>r' \<in> set rs. length r' = length r" "j < length r" "length r = n"
    using assms(2,3) rows by simp_all
  have f: "length (foldl (map2 (+)) r rs) = length r \<and>
           foldl (map2 (+)) r rs ! j = foldl (+) (r ! j) (map (\<lambda>r. r ! j) rs)"
    using len(1,2) by (rule foldl_map2_nth)
  show "length (column_means rows) = n"
    using f len(3) by (simp add: column_means_def rows)
  show "column_means rows ! j = sum_list (map (\<lambda>r. r ! j) rows) / real (length rows)"
    using f len by (simp add: column_means_def rows foldl_plus_sum)
qed

lemma pivot_table_row:
  assumes "a \<in> set (index (pivot_table df))"
  shows "map_of (zip (index (pivot_table df)) (data_values (pivot_table df))) a =
           Some (map (\<lambda>c. case map_of (groupby_sum df) (a, c) of None \<Rightarrow> 0 | Some x \<Rightarrow> x)
                   (columns (pivot_table df)))"
  using assms by (simp add: data_values_pivot_table map_of_zip_map)

lemma loc_rows_pivot_table:
  assumes "set accounts \<subseteq> set (index (pivot_table df))"
  shows "loc_rows (pivot_table df) accounts =
           Inr (map (\<lambda>a. map (\<lambda>c. case map_of (groupby_sum df) (a, c) of None \<Rightarrow> 0 | Some x \<Rightarrow> x)
                             (columns (pivot_table df))) accounts)"
  using assms
proof (induction accounts)
  case Nil
  then show ?case by (simp add: loc_rows_def)
next
  case (Cons a accounts)
  then have "a \<in> set (index (pivot_table df))" by simp
  note row = pivot_table_row[OF this]
  have "loc_rows (pivot_table df) accounts =
           Inr (map (\<lambda>a. map (\<lambda>c. case map_of (groupby_sum df) (a, c) of None \<Rightarrow> 0 | Some x \<Rightarrow> x)
                             (columns (pivot_table df))) accounts)"
    using Cons by simp
  then show ?case using row by (simp add: loc_rows_def)
qed

lemma raw_value_pivot_table:
  assumes "a \<in> set (index (pivot_table df))" and "j < length (columns (pivot_table df))"
  shows "raw_value (pivot_table df) a (columns (pivot_table df) ! j) =
           (case map_of (groupby_sum df) (a, columns (pivot_table df) ! j) of
              None \<Rightarrow> 0 | Some x \<Rightarrow> x)"
proof -
  let ?cols = "columns (pivot_table df)"
  have "?cols ! j \<in> set ?cols" using assms(2) by simp
  then have "map_of (zip ?cols (map (\<lambda>c. case map_of (groupby_sum df) (a, c) of None \<Rightarrow> 0 | Some x \<Rightarrow> x) ?cols)) (?cols ! j)
     = Some (case map_of (groupby_sum df) (a, ?cols ! j) of None \<Rightarrow> 0 | Some x \<Rightarrow> x)"
    by (simp add: map_of_zip_map)
  then show ?thesis
    using pivot_table_row[OF assms(1)] by (simp add: raw_value_def loc_cell_def)
qed

lemma top_para_pivot_table:
  assumes "accounts \<noteq> []" and "set accounts \<subseteq> set (index (pivot_table df))" and "df \<noteq> []"
  shows "\<exists>t. top_para (pivot_table df) accounts = Inr t \<and> t \<in> set (columns (pivot_table df)) \<and>
           (\<forall>c \<in> set (columns (pivot_table df)).
              group_mean (pivot_table df) accounts c \<le> group_mean (pivot_table df) accounts t \<and>
              (group_mean (pivot_table df) accounts c = group_mean (pivot_table df) accounts t
                 \<longrightarrow> t \<le> c))"
proof -
  let ?p = "pivot_table df"
  let ?cols = "columns ?p"
  let ?cell = "\<lambda>a c. case map_of (groupby_sum df) (a, c) of None \<Rightarrow> 0 | Some x \<Rightarrow> x"
  define rows where "rows = map (\<lambda>a. map (?cell a) ?cols) accounts"
  define means where "means = column_means rows"
  define n where "n = length ?cols"
  have "set ?cols \<noteq> {}" using assms(3) by (simp add: set_columns_pivot_table)
  then have cols_ne: "?cols \<noteq> []" by auto
  then have n0: "0 < n" by (simp add: n_def)
  have rows_ne: "rows \<noteq> []" using assms(1) by (simp add: rows_def)
  have rect: "\<forall>r \<in> set rows. length r = n" by (auto simp: rows_def n_def)
  have lrows: "length rows = length accounts" by (simp add: rows_def)
  have res: "top_para ?p accounts = Inr (?cols ! argmax means)"
    using loc_rows_pivot_table[OF assms(2)] rows_ne cols_ne
    by (simp add: top_para_def rows_def means_def)
  have lm: "length means = n"
    using column_means_nth(1)[OF rows_ne rect n0] by (simp add: means_def)
  have mean: "means ! j = group_mean ?p accounts (?cols ! j)" if "j < n" for j
  proof -
    have "means ! j = sum_list (map (\<lambda>r. r ! j) rows) / real (length rows)"
      using column_means_nth(2)[OF rows_ne rect that] by (simp add: means_def)
    also have "map (\<lambda>r. r ! j) rows = map (\<lambda>a. ?cell a (?cols ! j)) accounts"
      using that by (simp add: rows_def n_def)
    also have "\<dots> = map (\<lambda>a. raw_value ?p a (?cols ! j)) accounts"
    proof (rule map_cong[OF refl])
      fix a assume "a \<in> set accounts"
      then have "a \<in> set (index ?p)" using assms(2) by auto
      then show "?cell a (?cols ! j) = raw_value ?p a (?cols ! j)"
        using raw_value_pivot_table[of a df j] that by (simp add: n_def)
    qed
    finally show ?thesis by (simp add: group_mean_def lrows)
  qed
  have k: "argmax means < n"
    using argmax_less_length[of means] lm n0 by auto
  have t: "?cols ! argmax means \<in> set ?cols" using k by (simp add: n_def)
  have best: "group_mean ?p accounts c \<le> group_mean ?p accounts (?cols ! argmax means) \<and>
              (group_mean ?p accounts c = group_mean ?p accounts (?cols ! argmax means)
                 \<longrightarrow> ?cols ! argmax means \<le> c)"
    if "c \<in> set ?cols" for c
  proof -
    from that obtain j where j: "j < n" "c = ?cols ! j"
      by (auto simp: in_set_conv_nth n_def)
    have le: "means ! j \<le> means ! argmax means"
      using j(1) lm by (intro argmax_greatest) simp
    have "argmax means \<le> j" if "means ! j = means ! argmax means"
    proof (rule ccontr)
      assume "\<not> argmax means \<le> j"
      then have "j < argmax means" by simp
      then have "means ! j < means ! argmax means" by (rule argmax_first)
      then show False using that by simp
    qed
    then have "means ! j = means ! argmax means \<longrightarrow> ?cols ! argmax means \<le> ?cols ! j"
      using sorted_columns_pivot_table[of df] j(1)
      by (auto simp: n_def intro: sorted_nth_mono)
    then show ?thesis using le mean[OF j(1)] mean[OF k] j(2) by simp
  qed
  show ?thesis using res t best by blast
qed

text \<open>The printed report has one entry for every group, in the order of the
  dictionary.\<close>

lemma report_Inr:
  assumes "\<forall>ka \<in> set g. \<exists>t. top_para p (snd ka) = Inr t"
  shows "\<exists>out. report p g = Inr out \<and> map (\<lambda>(c, a, t). (c, a)) out = g \<and>
           (\<forall>(c, a, t) \<in> set out. top_para p a = Inr t)"
  using assms
proof (induction g)
  case Nil
  then show ?case by (simp add: report_def)
next
  case (Cons ka g)
  obtain c a where ka: "ka = (c, a)" by (cases ka)
  from Cons.prems ka obtain t where t: "top_para p a = Inr t" by auto
  from Cons obtain out where out: "report p g = Inr out"
    "map (\<lambda>(c, a, t). (c, a)) out = g" "\<forall>(c, a, t) \<in> set out. top_para p a = Inr t"
    by auto
  have "report p (ka # g) = Inr ((c, a, t) # out)"
    using out(1) t ka by (simp add: report_def)
  then show ?case using out(2,3) t ka by simp
qed

text \<open>
  C8: the report of lines 159 to 166 has exactly one entry for every group of the
  dictionary, in its order, and nothing else. Every entry has a member at least, so no
  empty group is reported, and its reported paragraph is the result of
  \<^const>\<open>top_para\<close> on the raw pivot table: a column whose mean of raw values over the
  members of the group is greatest, with a label that is lexicographically lowest
  among the columns of that mean.
\<close>

theorem top_para_dominant:
  assumes "clean_df raw = Inr df"
    and "data_normalized (data_values (pivot_table df)) = Inr normalized"
    and "grouped_accounts som (index (pivot_table df)) normalized = Inr g"
  shows "\<exists>out. report (pivot_table df) g = Inr out \<and>
           map (\<lambda>(coords, accounts, t). (coords, accounts)) out = g \<and>
           (\<forall>(coords, accounts, t) \<in> set out.
              accounts \<noteq> [] \<and>
              top_para (pivot_table df) accounts = Inr t \<and>
              t \<in> set (columns (pivot_table df)) \<and>
              (\<forall>c \<in> set (columns (pivot_table df)).
                 group_mean (pivot_table df) accounts c \<le> group_mean (pivot_table df) accounts t \<and>
                 (group_mean (pivot_table df) accounts c = group_mean (pivot_table df) accounts t
                    \<longrightarrow> t \<le> c)))"
proof -
  let ?p = "pivot_table df"
  let ?idx = "index ?p"
  have len: "length normalized = length ?idx"
    using data_normalized_length[OF assms(2)] by (simp add: length_data_values_pivot_table)
  note inv = grouped_accounts_members[OF assms(3) len]
  have df: "df \<noteq> []" using clean_df_Inr[OF assms(1)] by auto
  have "set (concat (map snd g)) = set ?idx" using inv by (metis mset_eq_setD)
  then have sub: "\<forall>ka \<in> set g. set (snd ka) \<subseteq> set ?idx" by auto
  have ne: "\<forall>ka \<in> set g. snd ka \<noteq> []" using inv by simp
  have dom: "\<exists>t. top_para ?p (snd ka) = Inr t \<and> t \<in> set (columns ?p) \<and>
           (\<forall>c \<in> set (columns ?p).
              group_mean ?p (snd ka) c \<le> group_mean ?p (snd ka) t \<and>
              (group_mean ?p (snd ka) c = group_mean ?p (snd ka) t \<longrightarrow> t \<le> c))"
    if "ka \<in> set g" for ka
  proof -
    have "snd ka \<noteq> []" "set (snd ka) \<subseteq> set ?idx" using that ne sub by simp_all
    then show ?thesis using df by (rule top_para_pivot_table)
  qed
  then have "\<forall>ka \<in> set g. \<exists>t. top_para ?p (snd ka) = Inr t" by blast
  then obtain out where out: "report ?p g = Inr out"
    "map (\<lambda>(c, a, t). (c, a)) out = g"
    "\<forall>(c, a, t) \<in> set out. top_para ?p a = Inr t"
    using report_Inr by blast
  have entry: "a \<noteq> [] \<and> top_para ?p a = Inr t \<and> t \<in> set (columns ?p) \<and>
           (\<forall>c' \<in> set (columns ?p).
              group_mean ?p a c' \<le> group_mean ?p a t \<and>
              (group_mean ?p a c' = group_mean ?p a t \<longrightarrow> t \<le> c'))"
    if "(c, a, t) \<in> set out" for c a t
  proof -
    have "(c, a) \<in> set (map (\<lambda>(c, a, t). (c, a)) out)" using that by force
    then have m: "(c, a) \<in> set g" using out(2) by simp
    have t: "top_para ?p a = Inr t" using out(3) that by auto
    have "a \<noteq> []" using ne m by auto
    then show ?thesis using dom[OF m] t by auto
  qed
  have "\<forall>(coords, accounts, t) \<in> set out.
              accounts \<noteq> [] \<and> top_para ?p accounts = Inr t \<and> t \<in> set (columns ?p) \<and>
              (\<forall>c \<in> set (columns ?p).
                 group_mean ?p accounts c \<le> group_mean ?p accounts t \<and>
                 (group_mean ?p accounts c = group_mean ?p accounts t \<longrightarrow> t \<le> c))"
  proof (intro ballI)
    fix e assume e: "e \<in> set out"
    obtain c a t where "e = (c, a, t)" by (cases e)
    then show "case e of (coords, accounts, t) \<Rightarrow>
              accounts \<noteq> [] \<and> top_para ?p accounts = Inr t \<and> t \<in> set (columns ?p) \<and>
              (\<forall>c \<in> set (columns ?p).
                 group_mean ?p accounts c \<le> group_mean ?p accounts t \<and>
                 (group_mean ?p accounts c = group_mean ?p accounts t \<longrightarrow> t \<le> c))"
      using entry[of c a t] e by simp
  qed
  then show ?thesis using out(1,2) by blast
qed

theorem top_para_dominant_witness:
  "\<exists>df normalized g.
     clean_df raw_data = Inr df \<and>
     data_normalized (data_values (pivot_table df)) = Inr normalized \<and>
     grouped_accounts [[[0, 0]]] (index (pivot_table df)) normalized = Inr g \<and>
     g = [((0, 0), [''Konto_A'', ''Konto_B'', ''Konto_C'', ''Konto_D''])] \<and>
     report (pivot_table df) g =
       Inr [((0, 0), [''Konto_A'', ''Konto_B'', ''Konto_C'', ''Konto_D''], ''4210'')]"
proof -
  define df where "df =
     [\<lparr>konto = ''Konto_A'', paragraf = ''4210'', kwota = 5000\<rparr>,
      \<lparr>konto = ''Konto_A'', paragraf = ''4300'', kwota = 100\<rparr>,
      \<lparr>konto = ''Konto_B'', paragraf = ''4300'', kwota = 4000\<rparr>,
      \<lparr>konto = ''Konto_B'', paragraf = ''4210'', kwota = 100\<rparr>,
      \<lparr>konto = ''Konto_C'', paragraf = ''4210'', kwota = 4800\<rparr>,
      \<lparr>konto = ''Konto_D'', paragraf = ''4300'', kwota = 4200 :: real\<rparr>]"
  define members where "members = [''Konto_A'', ''Konto_B'', ''Konto_C'', ''Konto_D'']"
  define g :: groups where "g = [((0, 0), members)]"
  have c: "clean_df raw_data = Inr df"
    unfolding df_def by (rule clean_df_raw_data)
  have p: "pivot_table df =
     \<lparr>index = members, columns = [''4210'', ''4300''],
      data_values = [[5000, 100], [100, 4000], [4800, 0], [0, 4200]]\<rparr>"
    using pivot_df_raw_data c by (simp add: pivot_df_def members_def)
  obtain normalized where n: "data_normalized (data_values (pivot_table df)) = Inr normalized"
    and l: "\<forall>r \<in> set normalized. length r = 2" and ln: "length normalized = 4"
    by (simp add: p data_normalized_def amin0_def amax0_def)
  obtain r1 r2 r3 r4 where rs: "normalized = [r1, r2, r3, r4]"
    using ln by (auto simp: length_Suc_conv numeral_eq_Suc)
  have w: "winner [[[0, 0]]] r = Inr (0, 0)" if "length r = 2" for r
    using that by (simp add: winner_def unravel_index_def)
  have gr: "grouped_accounts [[[0, 0]]] (index (pivot_table df)) normalized = Inr g"
    using l by (simp add: p rs grouped_accounts_def w add_account_def g_def members_def)
  obtain out where o1: "report (pivot_table df) g = Inr out"
    and o2: "map (\<lambda>(coords, accounts, t). (coords, accounts)) out = g"
    and o3: "\<forall>(coords, accounts, t) \<in> set out.
              accounts \<noteq> [] \<and>
              top_para (pivot_table df) accounts = Inr t \<and>
              t \<in> set (columns (pivot_table df)) \<and>
              (\<forall>c \<in> set (columns (pivot_table df)).
                 group_mean (pivot_table df) accounts c \<le> group_mean (pivot_table df) accounts t \<and>
                 (group_mean (pivot_table df) accounts c = group_mean (pivot_table df) accounts t
                    \<longrightarrow> t \<le> c))"
    using top_para_dominant [OF c n gr] by (elim exE conjE)
  from o2 obtain e where e: "out = [e]" by (cases out) (auto simp: g_def)
  obtain co a t where cat: "e = (co, a, t)" by (cases e)
  have ca: "co = (0, 0)" "a = members" using o2 e cat by (simp_all add: g_def)
  have "top_para (pivot_table df) a = Inr t" using o3 e cat by simp
  moreover have "top_para (pivot_table df) members = Inr ''4210''"
    by (simp add: p top_para_def loc_rows_def column_means_def members_def)
  ultimately have "t = ''4210''" using ca by simp
  then have "report (pivot_table df) g = Inr [((0, 0), members, ''4210'')]"
    using o1 e cat ca by simp
  then have "clean_df raw_data = Inr df \<and>
     data_normalized (data_values (pivot_table df)) = Inr normalized \<and>
     grouped_accounts [[[0, 0]]] (index (pivot_table df)) normalized = Inr g \<and>
     g = [((0, 0), [''Konto_A'', ''Konto_B'', ''Konto_C'', ''Konto_D''])] \<and>
     report (pivot_table df) g =
       Inr [((0, 0), [''Konto_A'', ''Konto_B'', ''Konto_C'', ''Konto_D''], ''4210'')]"
    using c n gr by (simp add: g_def members_def)
  then show ?thesis by (intro exI)
qed

section \<open>The arguments of the map\<close>

text \<open>
  C6, as stated, fails: the script has no option for a random seed. The map is
  constructed without one, so its generator is seeded from the environment.
\<close>

theorem no_random_seed_counterexample:
  "random_seed (som_args (pivot_table three_accounts_df)) = None"
  by (simp add: som_args_def)

text \<open>
  C6, amended: for every input that reaches line 144, the map is constructed from the
  data alone, with the fixed \<^verbatim>\<open>sigma\<close> 1.0 and \<^verbatim>\<open>learning_rate\<close> 0.5, a side of
  \<^const>\<open>map_size\<close> of the number of accounts, the number of paragraphs as input length,
  and no random seed.
\<close>

theorem som_args_without_seed:
  assumes "prepare_som raw = Inr (p, normalized, args)"
  shows "random_seed args = None \<and> sigma args = 1 \<and> learning_rate args = 1 / 2 \<and>
         som_x args = map_size (length (index p)) \<and> som_y args = map_size (length (index p)) \<and>
         input_len args = length (columns p)"
  using assms by (auto simp: prepare_som_def som_args_def split: sum.splits)

theorem som_args_without_seed_witness:
  "\<exists>normalized args.
     prepare_som three_accounts =
       Inr (\<lparr>index = [''A'', ''B'', ''C''], columns = [''4210''], data_values = [[10], [0], [10]]\<rparr>,
            normalized, args) \<and>
     random_seed args = None \<and> som_x args = 4"
proof -
  let ?p = "\<lparr>index = [''A'', ''B'', ''C''], columns = [''4210''], data_values = [[10 :: real], [0], [10]]\<rparr>"
  have "pivot_df three_accounts = Inr ?p"
    using pivot_table_three_accounts by (simp add: pivot_df_def clean_df_three_accounts)
  then obtain normalized where 1: "prepare_som three_accounts = Inr (?p, normalized, som_args ?p)"
    using data_normalized_three_accounts pivot_table_three_accounts
    by (simp add: prepare_som_def)
  have "map_size 3 = 4" using map_size_char [of 2 3] by simp
  moreover have "length (index ?p) = 3" by simp
  ultimately have "som_x (som_args ?p) = 4" by (simp only: som_args_def minisom_args.simps)
  then show ?thesis using som_args_without_seed [OF 1] 1 by auto
qed

end
